theory Spec2Isabelle
  imports Complex_Main "HOL-Library.Log_Nat"
begin

section \<open>Python values used by the catalog scripts\<close>

text \<open>
  The three scripts \<^verbatim>\<open>catalog_files.py\<close>, \<^verbatim>\<open>update_catalog_locations.py\<close> and
  \<^verbatim>\<open>find_noncatalog_files.py\<close> are embedded function by function. A Python \<^verbatim>\<open>str\<close> is a
  \<^typ>\<open>string\<close>; a character is read as the code point of the same number (the model covers
  the code points below 256). Exceptions that abort a script are values of \<open>error\<close>;
  \<open>SystemExit\<close> is raised by \<^verbatim>\<open>sys.exit()\<close>, and \<open>NoMoreInput\<close> stands for a review loop that
  waits for a key that never comes.
\<close>

datatype error =
    ZeroDivisionError
  | KeyError
  | IndexError
  | ValueError
  | FileNotFoundError
  | EOFError
  | SystemExit
  | NoMoreInput

subsection \<open>String methods\<close>

text \<open>\<^verbatim>\<open>c.isalpha()\<close> on the code points below 256: the ASCII letters, and the letters of
  Latin-1 (feminine and masculine ordinal, micro sign, and 192..255 without the two
  arithmetic signs 215 and 247).\<close>

definition isalpha :: "char \<Rightarrow> bool" where
  "isalpha c =
     (let n = (of_char c :: nat)
      in (65 \<le> n \<and> n \<le> 90) \<or> (97 \<le> n \<and> n \<le> 122) \<or> n = 170 \<or> n = 181 \<or> n = 186
         \<or> (192 \<le> n \<and> n \<le> 214) \<or> (216 \<le> n \<and> n \<le> 246) \<or> (248 \<le> n \<and> n \<le> 255))"

text \<open>\<^verbatim>\<open>s.count('/')\<close>.\<close>

definition count_sep :: "string \<Rightarrow> nat" where
  "count_sep s = length (filter (\<lambda>c. c = CHR ''/'') s)"

text \<open>\<^verbatim>\<open>s.lstrip('/')\<close> and \<^verbatim>\<open>s.rstrip('/')\<close>.\<close>

definition lstrip_sep :: "string \<Rightarrow> string" where
  "lstrip_sep s = dropWhile (\<lambda>c. c = CHR ''/'') s"

definition rstrip_sep :: "string \<Rightarrow> string" where
  "rstrip_sep s = rev (dropWhile (\<lambda>c. c = CHR ''/'') (rev s))"

text \<open>\<^verbatim>\<open>s.split('/')\<close>: the empty string gives one empty chunk.\<close>

fun split_sep :: "string \<Rightarrow> string list" where
  "split_sep [] = [[]]"
| "split_sep (x # xs) =
     (if x = CHR ''/'' then [] # split_sep xs
      else (case split_sep xs of [] \<Rightarrow> [[x]] | y # ys \<Rightarrow> (x # y) # ys))"

text \<open>\<^verbatim>\<open>"/".join(chunks)\<close>.\<close>

fun join_sep :: "string list \<Rightarrow> string" where
  "join_sep [] = []"
| "join_sep [x] = x"
| "join_sep (x # y # ys) = x @ CHR ''/'' # join_sep (y # ys)"

text \<open>\<^verbatim>\<open>s.endswith(suffix)\<close> and \<^verbatim>\<open>file.endswith(ignore_extensions)\<close> with
  \<^verbatim>\<open>ignore_extensions = ('.db', '.bak')\<close>.\<close>

definition endswith :: "string \<Rightarrow> string \<Rightarrow> bool" where
  "endswith s suf = (length suf \<le> length s \<and> drop (length s - length suf) s = suf)"

definition ignored :: "string \<Rightarrow> bool" where
  "ignored file = (endswith file ''.db'' \<or> endswith file ''.bak'')"

subsection \<open>\<^verbatim>\<open>os.path\<close>\<close>

text \<open>\<^verbatim>\<open>os.path.join(a, b)\<close> (posixpath): an absolute \<open>b\<close> replaces \<open>a\<close>; a separator is
  added unless \<open>a\<close> is empty or already ends with one.\<close>

definition os_path_join :: "string \<Rightarrow> string \<Rightarrow> string" where
  "os_path_join a b =
     (if b \<noteq> [] \<and> hd b = CHR ''/'' then b
      else if a = [] \<or> last a = CHR ''/'' then a @ b
      else a @ CHR ''/'' # b)"

text \<open>\<^verbatim>\<open>os.path.split(p)\<close> (posixpath): the tail is what follows the last separator; the
  head is what precedes it, with its trailing separators removed unless it consists of
  separators only.\<close>

definition os_path_split :: "string \<Rightarrow> string \<times> string" where
  "os_path_split p =
     (let tail = rev (takeWhile (\<lambda>c. c \<noteq> CHR ''/'') (rev p));
          head = rev (dropWhile (\<lambda>c. c \<noteq> CHR ''/'') (rev p))
      in (if head \<noteq> [] \<and> head \<noteq> replicate (length head) CHR ''/'' then rstrip_sep head else head,
          tail))"

subsection \<open>Float arithmetic and \<^verbatim>\<open>round\<close>\<close>

text \<open>
  The score uses \<^verbatim>\<open>round((k / n) * c)\<close> on Python floats (IEEE binary64, round to nearest,
  ties to even), and \<^verbatim>\<open>round\<close> itself rounds a tie to the even integer. The values are
  written out as fractions of naturals: \<open>rne_div a b\<close> is \<open>a / b\<close> rounded to the nearest
  integer, ties to even; \<open>ilog2 a b\<close> is the binary exponent of \<open>a / b\<close>; \<open>binary64 a b\<close> is
  the double nearest to \<open>a / b\<close>, as a fraction whose denominator is a power of two (all
  values here are far from the subnormal and overflow ranges).
\<close>

definition rne_div :: "nat \<Rightarrow> nat \<Rightarrow> nat" where
  "rne_div a b =
     (let q = a div b; r = a mod b
      in if 2 * r < b then q else if b < 2 * r then q + 1 else if even q then q else q + 1)"

definition ilog2 :: "nat \<Rightarrow> nat \<Rightarrow> int" where
  "ilog2 a b =
     (let la = floorlog 2 a; lb = floorlog 2 b
      in if b * 2 ^ la \<le> a * 2 ^ lb then int la - int lb else int la - int lb - 1)"

definition binary64 :: "nat \<Rightarrow> nat \<Rightarrow> nat \<times> nat" where
  "binary64 a b =
     (if a = 0 then (0, 1)
      else let e = ilog2 a b
           in if e \<le> 52 then (rne_div (a * 2 ^ nat (52 - e)) b, 2 ^ nat (52 - e))
              else (rne_div a (b * 2 ^ nat (e - 52)) * 2 ^ nat (e - 52), 1))"

text \<open>\<^verbatim>\<open>round((k / n) * c)\<close> for integers \<open>k\<close>, \<open>n > 0\<close> and \<open>c\<close>: the division is rounded to a
  double, the product is rounded to a double, and the result is rounded to an integer.\<close>

definition round_ratio_times :: "nat \<Rightarrow> nat \<Rightarrow> nat \<Rightarrow> int" where
  "round_ratio_times k n c =
     (case binary64 k n of (m, d) \<Rightarrow>
        (case binary64 (m * c) d of (m', d') \<Rightarrow> int (rne_div m' d')))"

section \<open>Scoring duplicates (\<^verbatim>\<open>catalog_files.py\<close>)\<close>

text \<open>An item of a duplicate group is a dict with the keys \<^verbatim>\<open>fp\<close> and \<^verbatim>\<open>cat\<close>, to which
  \<^verbatim>\<open>AnalyzeDupes\<close> adds \<^verbatim>\<open>s\<close> (the score) and \<^verbatim>\<open>r\<close> (remove; the display shows \<^verbatim>\<open>K\<close>, keep,
  when \<^verbatim>\<open>r\<close> is false). A key that is not set yet is \<open>None\<close>.\<close>

record dupe =
  d_fp :: string
  d_cat :: bool
  d_s :: "int option"
  d_r :: "bool option"

text \<open>\<^verbatim>\<open>IsPortableFilename\<close>: \<^verbatim>\<open>re.match\<close> anchors the one-character pattern
  \<^verbatim>\<open>[^a-zA-Z0-9\._\-]\<close> at the start of the tail, so the result is \<^verbatim>\<open>True\<close> when the tail is
  empty or its first character is a letter, a digit, a dot, an underscore or a hyphen.\<close>

definition portable_char :: "char \<Rightarrow> bool" where
  "portable_char c =
     (let n = (of_char c :: nat)
      in (97 \<le> n \<and> n \<le> 122) \<or> (65 \<le> n \<and> n \<le> 90) \<or> (48 \<le> n \<and> n \<le> 57)
         \<or> c = CHR ''.'' \<or> c = CHR ''_'' \<or> c = CHR ''-'')"

definition IsPortableFilename :: "string \<Rightarrow> bool" where
  "IsPortableFilename fname =
     (case snd (os_path_split fname) of [] \<Rightarrow> True | c # _ \<Rightarrow> portable_char c)"

text \<open>The path \<^verbatim>\<open>"/" + "/".join(p_chunks[0:c+1])\<close> tested in iteration \<open>c\<close>.\<close>

definition test_path :: "string list \<Rightarrow> nat \<Rightarrow> string" where
  "test_path p_chunks c = CHR ''/'' # join_sep (take (c + 1) p_chunks)"

text \<open>The \<^verbatim>\<open>else\<close> branch of the favored test: every iteration whose test path is favored
  adds its share.\<close>

definition chunk_bonus :: "string list \<Rightarrow> string \<Rightarrow> int" where
  "chunk_bonus dr_favored_paths p =
     (let p_chunks = split_sep (lstrip_sep p); num_chunks = length p_chunks
      in sum_list (map (\<lambda>c. if test_path p_chunks c \<in> set dr_favored_paths
                             then round_ratio_times (c + 1) num_chunks 100 else 0)
                       [0..<num_chunks]))"

text \<open>The body of the first inner loop of \<^verbatim>\<open>AnalyzeDupes\<close>: the score of one item. The
  division by \<^verbatim>\<open>len(f)\<close> raises when the full path ends with a separator.\<close>

definition score :: "string list \<Rightarrow> string \<Rightarrow> bool \<Rightarrow> error + int" where
  "score dr_favored_paths fp cat =
     (case os_path_split fp of (p, f) \<Rightarrow>
        if f = [] then Inl ZeroDivisionError
        else Inr (15 - int (count_sep fp)
                  + (if cat then 5 else 0)
                  + round_ratio_times (length (filter isalpha f)) (length f) 10
                  + (if IsPortableFilename fp then 4 else 0)
                  + (if fp \<in> set dr_favored_paths then 1000
                     else chunk_bonus dr_favored_paths p)))"

text \<open>The scores of one group, in order; the first failure aborts.\<close>

fun scores :: "string list \<Rightarrow> dupe list \<Rightarrow> error + int list" where
  "scores favs [] = Inr []"
| "scores favs (d # ds) =
     (case score favs (d_fp d) (d_cat d) of
        Inl e \<Rightarrow> Inl e
      | Inr v \<Rightarrow> (case scores favs ds of Inl e \<Rightarrow> Inl e | Inr vs \<Rightarrow> Inr (v # vs)))"

text \<open>The second inner loop: \<^verbatim>\<open>highest_score\<close> and \<^verbatim>\<open>highest_index\<close> start at 0 and follow
  every score strictly above the highest so far; \<open>i2\<close> is the index of the head.\<close>

fun highest :: "int list \<Rightarrow> nat \<Rightarrow> int \<times> nat \<Rightarrow> int \<times> nat" where
  "highest [] i2 acc = acc"
| "highest (v # vs) i2 (highest_score, highest_index) =
     highest vs (i2 + 1) (if v > highest_score then (v, i2) else (highest_score, highest_index))"

definition highest_index :: "int list \<Rightarrow> nat" where
  "highest_index vs = snd (highest vs 0 (0, 0))"

text \<open>The third inner loop: every item but the one at \<^verbatim>\<open>highest_index\<close> is flagged for
  removal; \<open>i2\<close> is the index of the head. The scores computed by the first loop are stored
  with the flags.\<close>

fun flag_items :: "nat \<Rightarrow> nat \<Rightarrow> dupe list \<Rightarrow> int list \<Rightarrow> dupe list" where
  "flag_items hi i2 (d # ds) (v # vs) =
     d\<lparr>d_s := Some v, d_r := Some (i2 \<noteq> hi)\<rparr> # flag_items hi (i2 + 1) ds vs"
| "flag_items hi i2 _ _ = []"

text \<open>One iteration of the outer loop: score, find the highest, flag the others.\<close>

definition analyze_group :: "string list \<Rightarrow> dupe list \<Rightarrow> error + dupe list" where
  "analyze_group favs dupes =
     (case scores favs dupes of
        Inl e \<Rightarrow> Inl e
      | Inr vs \<Rightarrow> Inr (flag_items (highest_index vs) 0 dupes vs))"

fun AnalyzeDupes :: "string list \<Rightarrow> dupe list list \<Rightarrow> error + dupe list list" where
  "AnalyzeDupes favs [] = Inr []"
| "AnalyzeDupes favs (dupes # rest) =
     (case analyze_group favs dupes of
        Inl e \<Rightarrow> Inl e
      | Inr g \<Rightarrow> (case AnalyzeDupes favs rest of Inl e \<Rightarrow> Inl e | Inr gs \<Rightarrow> Inr (g # gs)))"

text \<open>The iterations of the favored loop whose test path is in \<^verbatim>\<open>dr_favored_paths\<close>. The
  comment in the source expects at most one.\<close>

definition matching_chunks :: "string list \<Rightarrow> string \<Rightarrow> nat list" where
  "matching_chunks dr_favored_paths p =
     (let p_chunks = split_sep (lstrip_sep p)
      in filter (\<lambda>c. test_path p_chunks c \<in> set dr_favored_paths) [0..<length p_chunks])"

subsection \<open>The score as the specification words it\<close>

text \<open>The specification's formula, term by term, for comparison with \<open>score\<close>: the portable
  bonus is given when the whole filename matches \<^verbatim>\<open>[A-Za-z0-9._-]+\<close>, and the favored bonus is
  1000 for an exact rule, else the share of the one matching directory prefix (the first, were
  there several), else 0. Its \<^verbatim>\<open>round\<close> is read as the source's.\<close>

definition spec_portable :: "string \<Rightarrow> bool" where
  "spec_portable f = (f \<noteq> [] \<and> list_all portable_char f)"

definition spec_favoredBonus :: "string list \<Rightarrow> string \<Rightarrow> int" where
  "spec_favoredBonus favoredPaths fullPath =
     (if fullPath \<in> set favoredPaths then 1000
      else (let p = fst (os_path_split fullPath); n = length (split_sep (lstrip_sep p))
            in case matching_chunks favoredPaths p of
                 [] \<Rightarrow> 0
               | c # _ \<Rightarrow> round_ratio_times (c + 1) n 100))"

definition spec_score :: "string list \<Rightarrow> string \<Rightarrow> bool \<Rightarrow> int" where
  "spec_score favoredPaths fullPath catalog_origin =
     (let f = snd (os_path_split fullPath)
      in (15 - int (count_sep fullPath))
         + (if catalog_origin then 5 else 0)
         + round_ratio_times (length (filter isalpha f)) (length f) 10
         + (if spec_portable f then 4 else 0)
         + spec_favoredBonus favoredPaths fullPath)"

subsection \<open>Concrete inputs\<close>

text \<open>Two scan-origin items of one group, 17 and 16 separators deep, whose filename \<^verbatim>\<open>#1\<close> has
  no letter and no portable first character.\<close>

definition deep_a :: dupe where
  "deep_a = \<lparr>d_fp = ''/d/d/d/d/d/d/d/d/d/d/d/d/d/d/d/d/#1'', d_cat = False, d_s = None, d_r = None\<rparr>"

definition deep_b :: dupe where
  "deep_b = \<lparr>d_fp = ''/d/d/d/d/d/d/d/d/d/d/d/d/d/d/d/#1'', d_cat = False, d_s = None, d_r = None\<rparr>"

text \<open>The file \<^verbatim>\<open>f\<close> below 1001 nested directories \<^verbatim>\<open>d\<close> (2005 characters, within the path
  limit of 4096).\<close>

definition deep_x :: string where
  "deep_x = concat (replicate 1001 ''/d'') @ ''/f''"


section \<open>The catalog, the scan records and the file system\<close>

text \<open>A catalog entry is the dict \<^verbatim>\<open>{'f': filename, 'p': path, 's': size}\<close> stored under its
  hash; an element of \<^verbatim>\<open>new_data\<close> carries the hash too, under \<^verbatim>\<open>'h'\<close>. The catalog is a dict in
  insertion order, as \<^verbatim>\<open>json.load\<close> builds it: a list of pairs read with \<open>map_of\<close>.\<close>

record entry =
  e_f :: string
  e_p :: string
  e_s :: nat

record item =
  i_h :: string
  i_f :: string
  i_p :: string
  i_s :: nat

type_synonym catalog = "(string \<times> entry) list"

definition entry_path :: "entry \<Rightarrow> string" where
  "entry_path entry = os_path_join (e_p entry) (e_f entry)"

definition item_path :: "item \<Rightarrow> string" where
  "item_path i = os_path_join (i_p i) (i_f i)"

text \<open>\<^verbatim>\<open>catalog_index\<close>: full path to hash; a later entry with the same full path overwrites an
  earlier one.\<close>

definition catalog_index :: "catalog \<Rightarrow> (string \<rightharpoonup> string)" where
  "catalog_index catalog =
     fold (\<lambda>(hash, entry) idx. idx(entry_path entry \<mapsto> hash)) catalog Map.empty"

text \<open>What the scripts read from the operating system, constant during a traversal: the
  result of \<^verbatim>\<open>os.walk(starting_path)\<close> (each directory with its files),
  \<^verbatim>\<open>os.path.getsize\<close>, \<^verbatim>\<open>os.path.exists\<close>, and the bytes that \<^verbatim>\<open>open(fpath, 'rb')\<close> delivers.\<close>

record os =
  os_walk :: "(string \<times> string list) list"
  os_getsize :: "string \<Rightarrow> error + nat"
  os_exists :: "string \<Rightarrow> bool"
  os_read :: "string \<Rightarrow> error + string"

text \<open>The streaming hasher of the \<^verbatim>\<open>xxhash\<close> library (\<^verbatim>\<open>xxhash.xxh64()\<close>, \<^verbatim>\<open>update\<close>,
  \<^verbatim>\<open>hexdigest\<close>) is a parameter.\<close>

record 'h hasher =
  h_init :: 'h
  h_update :: "'h \<Rightarrow> string \<Rightarrow> 'h"
  h_hexdigest :: "'h \<Rightarrow> string"

text \<open>The successive results of \<^verbatim>\<open>file.read(blocksize)\<close> up to the first empty one.\<close>

function chop :: "nat \<Rightarrow> 'a list \<Rightarrow> 'a list list" where
  "chop n xs = (if n = 0 \<or> xs = [] then [] else take n xs # chop n (drop n xs))"
  by pat_completeness auto
termination
  by (relation "measure (\<lambda>(n, xs). length xs)") auto

declare chop.simps [simp del]

text \<open>\<^verbatim>\<open>hash_file(fpath)\<close> with its default block size.\<close>

definition hash_file :: "os \<Rightarrow> 'h hasher \<Rightarrow> string \<Rightarrow> error + string" where
  "hash_file os H fpath =
     (case os_read os fpath of
        Inl e \<Rightarrow> Inl e
      | Inr content \<Rightarrow>
          Inr (h_hexdigest H (fold (\<lambda>buf h. h_update H h buf) (chop 65536 content) (h_init H))))"

section \<open>The traversals\<close>

text \<open>The state of a traversal: \<^verbatim>\<open>new_data\<close>, \<^verbatim>\<open>renamed\<close> (used by
  \<^verbatim>\<open>find_noncatalog_files.py\<close> only), and the paths \<^verbatim>\<open>hash_file\<close> has been called with so far,
  which the scripts do not keep and the claims speak about. A loop stops at the first
  exception and leaves the state it had reached.\<close>

record scan_state =
  sc_new_data :: "item list"
  sc_renamed :: "item list"
  sc_hashed :: "string list"

fun run_loop :: "('a \<Rightarrow> 's \<Rightarrow> 's \<times> error option) \<Rightarrow> 'a list \<Rightarrow> 's \<Rightarrow> 's \<times> error option" where
  "run_loop body [] st = (st, None)"
| "run_loop body (x # xs) st =
     (case body x st of
        (st', None) \<Rightarrow> run_loop body xs st'
      | (st', Some e) \<Rightarrow> (st', Some e))"

text \<open>\<^verbatim>\<open>for root, dirs, files in os.walk(starting_path): for file in files\<close>.\<close>

definition walk_files :: "(string \<times> string list) list \<Rightarrow> (string \<times> string) list" where
  "walk_files walk = concat (map (\<lambda>(root', files). map (Pair root') files) walk)"

text \<open>The test shared by the three scripts: the full path is in \<^verbatim>\<open>catalog_index\<close> and the size
  equals the size recorded in \<^verbatim>\<open>catalog[catalog_index[fullpath]]\<close>.\<close>

definition cataloged_unchanged :: "catalog \<Rightarrow> string \<Rightarrow> nat \<Rightarrow> error + bool" where
  "cataloged_unchanged catalog fullpath size' =
     (case catalog_index catalog fullpath of
        None \<Rightarrow> Inr False
      | Some h \<Rightarrow>
          (case map_of catalog h of
             None \<Rightarrow> Inl KeyError
           | Some entry \<Rightarrow> Inr (size' = e_s entry)))"

subsection \<open>\<^verbatim>\<open>catalog_files.py\<close>\<close>

text \<open>The body of the traversal. The progress display and the timed checkpoints of the
  work in progress (a rewrite of \<^verbatim>\<open>wip.db\<close> with the current \<^verbatim>\<open>new_data\<close>) are left out.\<close>

definition scan_file ::
  "os \<Rightarrow> 'h hasher \<Rightarrow> catalog \<Rightarrow> string \<times> string \<Rightarrow> scan_state \<Rightarrow> scan_state \<times> error option" where
  "scan_file os H catalog rf st =
     (case rf of (root', file) \<Rightarrow>
      if ignored file then (st, None)
      else let fullpath = os_path_join root' file in
        case os_getsize os fullpath of
          Inl e \<Rightarrow> (st, Some e)
        | Inr size' \<Rightarrow>
           (case cataloged_unchanged catalog fullpath size' of
              Inl e \<Rightarrow> (st, Some e)
            | Inr True \<Rightarrow> (st, None)
            | Inr False \<Rightarrow>
                if filter (\<lambda>i. item_path i = fullpath) (sc_new_data st) \<noteq> [] then (st, None)
                else let st1 = st\<lparr>sc_hashed := sc_hashed st @ [fullpath]\<rparr> in
                  case hash_file os H fullpath of
                    Inl e \<Rightarrow> (st1, Some e)
                  | Inr hash \<Rightarrow>
                     (let item = \<lparr>i_h = hash, i_f = file, i_p = root', i_s = size'\<rparr> in
                      if (case map_of catalog hash of
                            None \<Rightarrow> False
                          | Some c \<Rightarrow> e_f c = i_f item \<and> e_p c = i_p item \<and> e_s c = i_s item)
                      then (st1, None)
                      else (st1\<lparr>sc_new_data := sc_new_data st1 @ [item]\<rparr>, None))))"

text \<open>The traversal, started from the work in progress loaded from \<^verbatim>\<open>wip.db\<close>.\<close>

definition catalog_files_scan ::
  "os \<Rightarrow> 'h hasher \<Rightarrow> catalog \<Rightarrow> item list \<Rightarrow> scan_state \<times> error option" where
  "catalog_files_scan os H catalog wip =
     run_loop (scan_file os H catalog) (walk_files (os_walk os))
       \<lparr>sc_new_data = wip, sc_renamed = [], sc_hashed = []\<rparr>"

subsection \<open>\<^verbatim>\<open>update_catalog_locations.py\<close>\<close>

text \<open>\<^verbatim>\<open>catalog_list\<close>: the catalog in the format of \<^verbatim>\<open>new_data\<close>.\<close>

definition catalog_list :: "catalog \<Rightarrow> item list" where
  "catalog_list catalog =
     map (\<lambda>(hash, entry). \<lparr>i_h = hash, i_f = e_f entry, i_p = e_p entry, i_s = e_s entry\<rparr>) catalog"

text \<open>The two narrowing steps of \<^verbatim>\<open>FindHashByFileAndSize\<close>.\<close>

definition same_size :: "item list \<Rightarrow> nat \<Rightarrow> item list" where
  "same_size cl size' = filter (\<lambda>i. i_s i = size') cl"

definition gone :: "os \<Rightarrow> item list \<Rightarrow> item list" where
  "gone os subset' = filter (\<lambda>i. \<not> os_exists os (item_path i)) subset'"

definition FindHashByFileAndSize :: "os \<Rightarrow> item list \<Rightarrow> string \<Rightarrow> string \<Rightarrow> nat \<Rightarrow> string" where
  "FindHashByFileAndSize os cl file path size' =
     (let subset' = same_size cl size' in
      case subset' of
        [i] \<Rightarrow> i_h i
      | _ \<Rightarrow> (let ss2 = gone os subset' in
               case ss2 of [i] \<Rightarrow> i_h i | _ \<Rightarrow> []))"

text \<open>\<^verbatim>\<open>catalog[hash] == item\<close> compares a dict with the keys \<^verbatim>\<open>f\<close>, \<^verbatim>\<open>p\<close>, \<^verbatim>\<open>s\<close> with one that
  also has the key \<^verbatim>\<open>h\<close>: two dicts with different key sets are never equal.\<close>

definition entry_eq_item :: "entry \<Rightarrow> item \<Rightarrow> bool" where
  "entry_eq_item c item = False"

definition reconcile_file ::
  "os \<Rightarrow> 'h hasher \<Rightarrow> catalog \<Rightarrow> string \<times> string \<Rightarrow> scan_state \<Rightarrow> scan_state \<times> error option" where
  "reconcile_file os H catalog rf st =
     (case rf of (root', file) \<Rightarrow>
      if ignored file then (st, None)
      else let fullpath = os_path_join root' file in
        case os_getsize os fullpath of
          Inl e \<Rightarrow> (st, Some e)
        | Inr size' \<Rightarrow>
           (case cataloged_unchanged catalog fullpath size' of
              Inl e \<Rightarrow> (st, Some e)
            | Inr True \<Rightarrow> (st, None)
            | Inr False \<Rightarrow>
               (let deduced = FindHashByFileAndSize os (catalog_list catalog) file root' size';
                    st1 = (if deduced = [] then st\<lparr>sc_hashed := sc_hashed st @ [fullpath]\<rparr> else st)
                in case (if deduced = [] then hash_file os H fullpath else Inr deduced) of
                     Inl e \<Rightarrow> (st1, Some e)
                   | Inr hash \<Rightarrow>
                      (let item = \<lparr>i_h = hash, i_f = file, i_p = root', i_s = size'\<rparr> in
                       if (case map_of catalog hash of
                             None \<Rightarrow> False
                           | Some c \<Rightarrow> entry_eq_item c item)
                       then (st1, None)
                       else (st1\<lparr>sc_new_data := sc_new_data st1 @ [item]\<rparr>, None)))))"

definition update_locations_scan :: "os \<Rightarrow> 'h hasher \<Rightarrow> catalog \<Rightarrow> scan_state \<times> error option" where
  "update_locations_scan os H catalog =
     run_loop (reconcile_file os H catalog) (walk_files (os_walk os))
       \<lparr>sc_new_data = [], sc_renamed = [], sc_hashed = []\<rparr>"

subsection \<open>\<^verbatim>\<open>find_noncatalog_files.py\<close>\<close>

definition classify_file ::
  "os \<Rightarrow> 'h hasher \<Rightarrow> catalog \<Rightarrow> string \<times> string \<Rightarrow> scan_state \<Rightarrow> scan_state \<times> error option" where
  "classify_file os H catalog rf st =
     (case rf of (root', file) \<Rightarrow>
      if ignored file then (st, None)
      else let fullpath = os_path_join root' file in
        case os_getsize os fullpath of
          Inl e \<Rightarrow> (st, Some e)
        | Inr size' \<Rightarrow>
           (case cataloged_unchanged catalog fullpath size' of
              Inl e \<Rightarrow> (st, Some e)
            | Inr True \<Rightarrow> (st, None)
            | Inr False \<Rightarrow>
               (let st1 = st\<lparr>sc_hashed := sc_hashed st @ [fullpath]\<rparr> in
                case hash_file os H fullpath of
                  Inl e \<Rightarrow> (st1, Some e)
                | Inr hash \<Rightarrow>
                   (let item = \<lparr>i_h = hash, i_f = file, i_p = root', i_s = size'\<rparr> in
                    if map_of catalog hash \<noteq> None
                    then (st1\<lparr>sc_renamed := sc_renamed st1 @ [item]\<rparr>, None)
                    else (st1\<lparr>sc_new_data := sc_new_data st1 @ [item]\<rparr>, None)))))"

definition find_noncatalog_scan :: "os \<Rightarrow> 'h hasher \<Rightarrow> catalog \<Rightarrow> scan_state \<times> error option" where
  "find_noncatalog_scan os H catalog =
     run_loop (classify_file os H catalog) (walk_files (os_walk os))
       \<lparr>sc_new_data = [], sc_renamed = [], sc_hashed = []\<rparr>"

section \<open>Identifying duplicates (\<^verbatim>\<open>catalog_files.py\<close>)\<close>

text \<open>The state of the loop over \<^verbatim>\<open>new_data\<close>: \<^verbatim>\<open>dupes\<close> (the paths accounted for),
  \<^verbatim>\<open>to_be_removed\<close> and \<^verbatim>\<open>duplicates\<close>.\<close>

record groups =
  g_dupes :: "string list"
  g_to_be_removed :: "string list"
  g_duplicates :: "dupe list list"

text \<open>\<^verbatim>\<open>matching\<close>: the records of \<^verbatim>\<open>new_data\<close> with this hash that are not accounted for.\<close>

definition matching_records :: "item list \<Rightarrow> string \<Rightarrow> string list \<Rightarrow> dupe list" where
  "matching_records new_data hash dupes =
     map (\<lambda>i. \<lparr>d_fp = item_path i, d_cat = False, d_s = None, d_r = None\<rparr>)
         (filter (\<lambda>i. i_h i = hash \<and> item_path i \<notin> set dupes) new_data)"

text \<open>The body of the loop. \<open>catalog_item\<close> is \<open>None\<close> for the empty dict.\<close>

definition group_file ::
  "(string \<Rightarrow> bool) \<Rightarrow> catalog \<Rightarrow> bool \<Rightarrow> item list \<Rightarrow> item \<Rightarrow> groups \<Rightarrow> groups" where
  "group_file exists catalog remove_catalog_dupes new_data file st =
     (let hash = i_h file; fullpath = item_path file in
      if fullpath \<in> set (g_dupes st) then st
      else if (case map_of catalog hash of None \<Rightarrow> False | Some o' \<Rightarrow> \<not> exists (entry_path o'))
      then st\<lparr>g_to_be_removed := g_to_be_removed st @ [fullpath]\<rparr>
      else
        let catalog_item =
              (case map_of catalog hash of
                 None \<Rightarrow> None
               | Some o' \<Rightarrow> Some \<lparr>d_fp = entry_path o', d_cat = True, d_s = None, d_r = None\<rparr>);
            duplicates_item =
              (case catalog_item of
                 None \<Rightarrow> []
               | Some c \<Rightarrow> if remove_catalog_dupes then [c] else []);
            matching = matching_records new_data hash (g_dupes st)
        in if length matching < 2 \<and> catalog_item = None then st
           else st\<lparr>g_dupes := g_dupes st @ map d_fp matching,
                   g_duplicates := g_duplicates st @ [duplicates_item @ matching]\<rparr>)"

definition identify_duplicates ::
  "(string \<Rightarrow> bool) \<Rightarrow> catalog \<Rightarrow> bool \<Rightarrow> item list \<Rightarrow> groups" where
  "identify_duplicates exists catalog remove_catalog_dupes new_data =
     fold (group_file exists catalog remove_catalog_dupes new_data) new_data
       \<lparr>g_dupes = [], g_to_be_removed = [], g_duplicates = []\<rparr>"

section \<open>The review and the removal list (\<^verbatim>\<open>catalog_files.py\<close>)\<close>

text \<open>The review screen is outside the model; what it hands to the main loop is a command:
  a path typed into the box of \<^verbatim>\<open>f\<close>, the selection made after \<^verbatim>\<open>r\<close> (a favored path,
  \<^verbatim>\<open>(none)\<close>, or the empty string for escape), a confirmed \<^verbatim>\<open>d\<close>, a confirmed quit, or any
  other key.\<close>

datatype command = Favor string | Unfavor string | Done | Quit | Move

text \<open>\<^verbatim>\<open>list.remove(x)\<close>: the first occurrence goes, and \<^verbatim>\<open>ValueError\<close> is raised without one.\<close>

fun list_remove :: "'a \<Rightarrow> 'a list \<Rightarrow> error + 'a list" where
  "list_remove x [] = Inl ValueError"
| "list_remove x (y # ys) =
     (if x = y then Inr ys
      else (case list_remove x ys of Inl e \<Rightarrow> Inl e | Inr r \<Rightarrow> Inr (y # r)))"

definition CountDupeIndexes :: "dupe list list \<Rightarrow> nat" where
  "CountDupeIndexes duplicates = sum_list (map length duplicates)"

datatype review = Continue "string list" "dupe list list" | Break | Abort error

text \<open>One turn of the main loop; \<^verbatim>\<open>dupe_count\<close> is the count taken before the loop, which no
  command changes.\<close>

definition handle_key :: "string list \<Rightarrow> dupe list list \<Rightarrow> command \<Rightarrow> review" where
  "handle_key dr_favored_paths duplicates key =
     (case key of
        Quit \<Rightarrow> Abort SystemExit
      | _ \<Rightarrow>
        if CountDupeIndexes duplicates = 0 then Continue dr_favored_paths duplicates
        else (case key of
                Favor favored_path \<Rightarrow>
                  (let favs = (if favored_path \<noteq> [] then dr_favored_paths @ [favored_path]
                               else dr_favored_paths)
                   in case AnalyzeDupes favs duplicates of
                        Inl e \<Rightarrow> Abort e
                      | Inr ds \<Rightarrow> Continue favs ds)
              | Unfavor rem_path \<Rightarrow>
                  (case (if rem_path \<noteq> ''(none)'' then list_remove rem_path dr_favored_paths
                         else Inr dr_favored_paths) of
                     Inl e \<Rightarrow> Abort e
                   | Inr favs \<Rightarrow>
                      (case AnalyzeDupes favs duplicates of
                         Inl e \<Rightarrow> Abort e
                       | Inr ds \<Rightarrow> Continue favs ds))
              | Done \<Rightarrow> Break
              | _ \<Rightarrow> Continue dr_favored_paths duplicates))"

fun review_loop ::
  "string list \<Rightarrow> dupe list list \<Rightarrow> command list \<Rightarrow> error + string list \<times> dupe list list" where
  "review_loop favs duplicates [] = Inl NoMoreInput"
| "review_loop favs duplicates (key # keys) =
     (case handle_key favs duplicates key of
        Continue favs' ds \<Rightarrow> review_loop favs' ds keys
      | Break \<Rightarrow> Inr (favs, duplicates)
      | Abort e \<Rightarrow> Inl e)"

text \<open>\<^verbatim>\<open>RemoveDupes\<close>: the two nested loops, over the items of all groups in order.\<close>

fun remove_flagged :: "string list \<Rightarrow> dupe list \<Rightarrow> error + string list" where
  "remove_flagged to_be_removed [] = Inr to_be_removed"
| "remove_flagged to_be_removed (d # ds) =
     (case d_r d of
        None \<Rightarrow> Inl KeyError
      | Some r \<Rightarrow> remove_flagged (if r then to_be_removed @ [d_fp d] else to_be_removed) ds)"

definition RemoveDupes :: "string list \<Rightarrow> dupe list list \<Rightarrow> error + string list" where
  "RemoveDupes to_be_removed duplicates = remove_flagged to_be_removed (concat duplicates)"

text \<open>From the identification of the duplicates to the end of the review: the value of
  \<^verbatim>\<open>to_be_removed\<close> that the deletion step receives.\<close>

definition resolve ::
  "(string \<Rightarrow> bool) \<Rightarrow> catalog \<Rightarrow> bool \<Rightarrow> item list \<Rightarrow> command list \<Rightarrow> error + string list" where
  "resolve exists catalog remove_catalog_dupes new_data keys =
     (let g = identify_duplicates exists catalog remove_catalog_dupes new_data in
      if g_duplicates g = [] then Inr (g_to_be_removed g)
      else (case AnalyzeDupes [] (g_duplicates g) of
              Inl e \<Rightarrow> Inl e
            | Inr ds \<Rightarrow>
               (case review_loop [] ds keys of
                  Inl e \<Rightarrow> Inl e
                | Inr (favs, ds') \<Rightarrow> RemoveDupes (g_to_be_removed g) ds')))"

section \<open>Deleting and committing (\<^verbatim>\<open>catalog_files.py\<close>)\<close>

text \<open>The last two steps change the file system and talk to the user. A file holds bytes,
  or is the JSON document of a catalog or of a work in progress; the lines the user types
  are \<open>w_stdin\<close>; what the script prints is a list of messages.\<close>

datatype file_content = Bytes string | CatalogJson catalog | WipJson "item list"

datatype msg =
    ToBeRemovedHeader
  | Path string
  | AskRemove nat
  | Removed string
  | FinishedRemoving
  | NoneDeleted
  | NoDuplicatesFound
  | AskAdd nat
  | AlreadyInCatalog string string
  | Added nat
  | NotAddedWipSaved
  | NoNewFiles

record world =
  w_fs :: "string \<rightharpoonup> file_content"
  w_stdin :: "string list"
  w_stdout :: "msg list"

definition say :: "msg list \<Rightarrow> world \<Rightarrow> world" where
  "say ms w = w\<lparr>w_stdout := w_stdout w @ ms\<rparr>"

definition catalog_path :: "string \<Rightarrow> string" where
  "catalog_path db_path = os_path_join db_path ''catalog.db''"

definition wip_db_path :: "string \<Rightarrow> string" where
  "wip_db_path db_path = os_path_join db_path ''wip.db''"

text \<open>\<^verbatim>\<open>choice = input(prompt).lower()\<close> followed by \<^verbatim>\<open>choice[0] == 'y'\<close>.\<close>

definition input_choice :: "msg \<Rightarrow> world \<Rightarrow> error + bool \<times> world" where
  "input_choice prompt w =
     (case w_stdin w of
        [] \<Rightarrow> Inl EOFError
      | line # rest \<Rightarrow>
         (case line of
            [] \<Rightarrow> Inl IndexError
          | c # _ \<Rightarrow> Inr (c = CHR ''y'' \<or> c = CHR ''Y'', say [prompt] (w\<lparr>w_stdin := rest\<rparr>))))"

text \<open>\<^verbatim>\<open>os.path.exists(path)\<close> and \<^verbatim>\<open>os.remove(path)\<close>.\<close>

definition path_exists :: "world \<Rightarrow> string \<Rightarrow> bool" where
  "path_exists w path = (w_fs w path \<noteq> None)"

definition os_remove :: "string \<Rightarrow> world \<Rightarrow> error + world" where
  "os_remove path w =
     (if path_exists w path then Inr (w\<lparr>w_fs := (w_fs w)(path := None)\<rparr>)
      else Inl FileNotFoundError)"

text \<open>The deletion loop: \<^verbatim>\<open>if os.path.exists(f): os.remove(f)\<close>.\<close>

fun remove_existing :: "string list \<Rightarrow> world \<Rightarrow> world" where
  "remove_existing [] w = w"
| "remove_existing (f # fs) w =
     remove_existing fs
       (if path_exists w f then say [Removed f] (w\<lparr>w_fs := (w_fs w)(f := None)\<rparr>) else w)"

definition deletion_step :: "string list \<Rightarrow> world \<Rightarrow> error + world" where
  "deletion_step to_be_removed w =
     (if to_be_removed \<noteq> [] then
        (case input_choice (AskRemove (length to_be_removed))
                (say (ToBeRemovedHeader # map Path to_be_removed) w) of
           Inl e \<Rightarrow> Inl e
         | Inr (yes, w1) \<Rightarrow>
             if yes then Inr (say [FinishedRemoving] (remove_existing to_be_removed w1))
             else Inr (say [NoneDeleted] w1))
      else Inr (say [NoDuplicatesFound] w))"

text \<open>The commit loop: a hash that is already a key is reported, any other is inserted at
  the end of the dict.\<close>

fun commit_entries :: "item list \<Rightarrow> catalog \<times> msg list \<Rightarrow> catalog \<times> msg list" where
  "commit_entries [] acc = acc"
| "commit_entries (i # rest) (catalog, out) =
     commit_entries rest
       (if map_of catalog (i_h i) \<noteq> None
        then (catalog, out @ [AlreadyInCatalog (i_h i) (i_f i)])
        else (catalog @ [(i_h i, \<lparr>e_f = i_f i, e_p = i_p i, e_s = i_s i\<rparr>)], out))"

definition new_cat_entries :: "item list \<Rightarrow> string list \<Rightarrow> item list" where
  "new_cat_entries new_data to_be_removed =
     filter (\<lambda>i. item_path i \<notin> set to_be_removed) new_data"

definition commit_step ::
  "string \<Rightarrow> catalog \<Rightarrow> item list \<Rightarrow> string list \<Rightarrow> world \<Rightarrow> error + catalog \<times> world" where
  "commit_step db_path catalog new_data to_be_removed w =
     (let entries = new_cat_entries new_data to_be_removed in
      if entries \<noteq> [] then
        (case input_choice (AskAdd (length entries)) w of
           Inl e \<Rightarrow> Inl e
         | Inr (yes, w1) \<Rightarrow>
             if yes then
               (case commit_entries entries (catalog, []) of (catalog', out) \<Rightarrow>
                  (case os_remove (wip_db_path db_path)
                          ((say (out @ [Added (length entries)]) w1)
                             \<lparr>w_fs := (w_fs w1)(catalog_path db_path \<mapsto> CatalogJson catalog')\<rparr>) of
                     Inl e \<Rightarrow> Inl e
                   | Inr w2 \<Rightarrow> Inr (catalog', w2)))
             else Inr (catalog, say [NotAddedWipSaved] w1))
      else (case os_remove (wip_db_path db_path) (say [NoNewFiles] w) of
              Inl e \<Rightarrow> Inl e
            | Inr w1 \<Rightarrow> Inr (catalog, w1)))"

text \<open>The script from the unconditional write of \<^verbatim>\<open>wip.db\<close> after the traversal to its end.\<close>

definition save_wip :: "string \<Rightarrow> item list \<Rightarrow> world \<Rightarrow> world" where
  "save_wip db_path new_data w = w\<lparr>w_fs := (w_fs w)(wip_db_path db_path \<mapsto> WipJson new_data)\<rparr>"

definition after_scan ::
  "string \<Rightarrow> catalog \<Rightarrow> bool \<Rightarrow> item list \<Rightarrow> command list \<Rightarrow> world \<Rightarrow> error + catalog \<times> world" where
  "after_scan db_path catalog remove_catalog_dupes new_data keys w =
     (let w1 = save_wip db_path new_data w in
      case resolve (path_exists w1) catalog remove_catalog_dupes new_data keys of
        Inl e \<Rightarrow> Inl e
      | Inr to_be_removed \<Rightarrow>
         (case deletion_step to_be_removed w1 of
            Inl e \<Rightarrow> Inl e
          | Inr w2 \<Rightarrow> commit_step db_path catalog new_data to_be_removed w2))"

subsection \<open>Helper predicates\<close>

text \<open>What a traversal has not done for the path \<open>fp\<close>: hashed it, recorded it after the
  first \<open>n\<close> records of \<^verbatim>\<open>new_data\<close>, or recorded it as renamed.\<close>

definition untouched :: "string \<Rightarrow> nat \<Rightarrow> scan_state \<Rightarrow> bool" where
  "untouched fp n st =
     (fp \<notin> set (sc_hashed st) \<and> fp \<notin> item_path ` set (drop n (sc_new_data st))
      \<and> fp \<notin> item_path ` set (sc_renamed st) \<and> n \<le> length (sc_new_data st))"

text \<open>The keys of a group that \<^verbatim>\<open>AnalyzeDupes\<close> reads and never writes.\<close>

definition keys_of :: "dupe list \<Rightarrow> (string \<times> bool) list" where
  "keys_of g = map (\<lambda>d. (d_fp d, d_cat d)) g"

text \<open>What every group has: at least one scan-origin item, at most one catalog-origin item,
  and at least two items when catalog duplicates may be removed.\<close>

definition group_ok :: "bool \<Rightarrow> dupe list \<Rightarrow> bool" where
  "group_ok flag g =
     (1 \<le> length (filter (\<lambda>d. \<not> d_cat d) g) \<and> length (filter d_cat g) \<le> 1
      \<and> (flag \<longrightarrow> 2 \<le> length g))"

text \<open>The full paths of the scan records and of the catalog entries.\<close>

definition known_paths :: "catalog \<Rightarrow> item list \<Rightarrow> string set" where
  "known_paths catalog new_data = item_path ` set new_data \<union> entry_path ` snd ` set catalog"

definition paths_known :: "catalog \<Rightarrow> item list \<Rightarrow> groups \<Rightarrow> bool" where
  "paths_known catalog new_data st =
     ((\<forall>p\<in>set (g_to_be_removed st). p \<in> known_paths catalog new_data)
      \<and> (\<forall>g\<in>set (g_duplicates st). \<forall>d\<in>set g. d_fp d \<in> known_paths catalog new_data))"



text \<open>A stand-in for the hasher on concrete inputs: the digest is the content.\<close>

definition plain_hasher :: "string hasher" where
  "plain_hasher = \<lparr>h_init = [], h_update = (\<lambda>h buf. h @ buf), h_hexdigest = (\<lambda>h. h)\<rparr>"

subsection \<open>Concrete file systems and catalogs\<close>

text \<open>The example of the specification: \<^verbatim>\<open>/a/foo.txt\<close> and \<^verbatim>\<open>/b/foo.txt\<close>, both with the five
  bytes \<^verbatim>\<open>hello\<close>, scanned from \<^verbatim>\<open>/\<close>.\<close>

definition hello_os :: os where
  "hello_os =
     \<lparr>os_walk = [(''/'', []), (''/a'', [''foo.txt'']), (''/b'', [''foo.txt''])],
      os_getsize = (\<lambda>p. if p = ''/a/foo.txt'' \<or> p = ''/b/foo.txt'' then Inr 5
                         else Inl FileNotFoundError),
      os_exists = (\<lambda>p. p \<in> set [''/'', ''/a'', ''/b'', ''/a/foo.txt'', ''/b/foo.txt'']),
      os_read = (\<lambda>p. if p = ''/a/foo.txt'' \<or> p = ''/b/foo.txt'' then Inr ''hello''
                      else Inl FileNotFoundError)\<rparr>"

definition hello_hash :: "'h hasher \<Rightarrow> string" where
  "hello_hash H = h_hexdigest H (h_update H (h_init H) ''hello'')"

definition hello_a :: "'h hasher \<Rightarrow> item" where
  "hello_a H = \<lparr>i_h = hello_hash H, i_f = ''foo.txt'', i_p = ''/a'', i_s = 5\<rparr>"

definition hello_b :: "'h hasher \<Rightarrow> item" where
  "hello_b H = \<lparr>i_h = hello_hash H, i_f = ''foo.txt'', i_p = ''/b'', i_s = 5\<rparr>"

text \<open>A catalog with the one entry \<^verbatim>\<open>/x/a.txt\<close>, and a scan record \<^verbatim>\<open>/y/b.txt\<close> with the same
  hash.\<close>

definition catalog_one :: catalog where
  "catalog_one = [(''h1'', \<lparr>e_f = ''a.txt'', e_p = ''/x'', e_s = 5\<rparr>)]"

definition record_b :: item where
  "record_b = \<lparr>i_h = ''h1'', i_f = ''b.txt'', i_p = ''/y'', i_s = 5\<rparr>"

text \<open>The entry \<^verbatim>\<open>/x/a.txt\<close> on disk, unchanged.\<close>

definition cataloged_os :: os where
  "cataloged_os =
     \<lparr>os_walk = [(''/x'', [''a.txt''])],
      os_getsize = (\<lambda>p. if p = ''/x/a.txt'' then Inr 5 else Inl FileNotFoundError),
      os_exists = (\<lambda>p. p \<in> set [''/x'', ''/x/a.txt'']),
      os_read = (\<lambda>p. if p = ''/x/a.txt'' then Inr ''hello'' else Inl FileNotFoundError)\<rparr>"





text \<open>Three entries, \<^verbatim>\<open>/x/z.txt\<close> of size 7, \<^verbatim>\<open>/x/a.txt\<close> and \<^verbatim>\<open>/x/c.txt\<close> of size 5; on disk
  \<^verbatim>\<open>/x/z.txt\<close> and \<^verbatim>\<open>/x/c.txt\<close> are gone and \<^verbatim>\<open>/y/b.txt\<close>, of size 5, has appeared.\<close>

definition catalog_three :: catalog where
  "catalog_three = [(''h0'', \<lparr>e_f = ''z.txt'', e_p = ''/x'', e_s = 7\<rparr>),
                    (''h1'', \<lparr>e_f = ''a.txt'', e_p = ''/x'', e_s = 5\<rparr>),
                    (''h2'', \<lparr>e_f = ''c.txt'', e_p = ''/x'', e_s = 5\<rparr>)]"

definition moved_os :: os where
  "moved_os =
     \<lparr>os_walk = [(''/x'', [''a.txt'']), (''/y'', [''b.txt''])],
      os_getsize = (\<lambda>p. if p = ''/x/a.txt'' \<or> p = ''/y/b.txt'' then Inr 5 else Inl FileNotFoundError),
      os_exists = (\<lambda>p. p \<in> set [''/x'', ''/y'', ''/x/a.txt'', ''/y/b.txt'']),
      os_read = (\<lambda>p. if p = ''/x/a.txt'' \<or> p = ''/y/b.txt'' then Inr ''hello'' else Inl FileNotFoundError)\<rparr>"

definition empty_scan :: scan_state where
  "empty_scan = \<lparr>sc_new_data = [], sc_renamed = [], sc_hashed = []\<rparr>"

text \<open>A run whose only scan record duplicates a catalog entry that is gone from the disk;
  the user confirms the deletion. \<open>orphan_world_deleted\<close> is the state after the deletion
  step.\<close>

definition orphan_world :: world where
  "orphan_world = \<lparr>w_fs = [''/y/b.txt'' \<mapsto> Bytes ''hello''], w_stdin = [''y''], w_stdout = []\<rparr>"

definition orphan_world_deleted :: world where
  "orphan_world_deleted =
     \<lparr>w_fs = [wip_db_path ''/db'' \<mapsto> WipJson [record_b]], w_stdin = [],
      w_stdout = [ToBeRemovedHeader, Path ''/y/b.txt'', AskRemove 1, Removed ''/y/b.txt'', FinishedRemoving]\<rparr>"

section \<open>Properties of the float model\<close>

text \<open>Rounding never passes an integer bound: a quotient that is at most \<open>N\<close> is rounded to
  at most \<open>N\<close>, by \<open>rne_div\<close> and, for \<open>N\<close> below \<open>2 ^ 53\<close>, by \<open>binary64\<close>.\<close>

lemma rne_div_le: "a \<le> N * b \<Longrightarrow> 0 < b \<Longrightarrow> rne_div a b \<le> N"
proof -
  assume le: "a \<le> N * b" and pos: "0 < b"
  have q: "a div b \<le> N"
    using le pos by (metis div_le_mono nonzero_mult_div_cancel_right less_numeral_extra(3))
  show ?thesis
  proof (cases "a div b = N")
    case True
    have "a = b * (a div b) + a mod b" by simp
    with True le have "a mod b = 0"
      by (metis add_diff_cancel_left' diff_is_0_eq mult.commute)
    with True pos show ?thesis by (simp add: rne_div_def Let_def)
  next
    case False
    with q have "a div b + 1 \<le> N" by simp
    then show ?thesis by (simp add: rne_div_def Let_def)
  qed
qed

lemma ilog2_large:
  assumes "0 < a" "0 < b" "53 \<le> ilog2 a b"
  shows "2 ^ 53 * b \<le> a"
proof -
  define la where "la = floorlog 2 a"
  define lb where "lb = floorlog 2 b"
  have ba: "2 ^ (la - 1) \<le> a" and bb: "b < 2 ^ lb"
    using floorlog_bounds [of a 2] floorlog_bounds [of b 2] assms by (simp_all add: la_def lb_def)
  show ?thesis
  proof (cases "b * 2 ^ la \<le> a * 2 ^ lb")
    case True
    with assms have d: "lb + 53 \<le> la" by (simp add: ilog2_def Let_def la_def lb_def)
    then obtain k where k: "la = lb + 53 + k" by (metis le_Suc_ex)
    from True have "b * 2 ^ 53 * 2 ^ k * 2 ^ lb \<le> a * 2 ^ lb"
      by (simp add: k power_add mult_ac)
    then have "b * 2 ^ 53 * 2 ^ k \<le> a" by simp
    moreover have "b * 2 ^ 53 \<le> b * 2 ^ 53 * 2 ^ k" by simp
    ultimately have "b * 2 ^ 53 \<le> a" by (rule le_trans [rotated])
    then show ?thesis by (simp only: mult.commute)
  next
    case False
    with assms have d: "lb + 54 \<le> la" by (simp add: ilog2_def Let_def la_def lb_def)
    then have le: "lb + 53 \<le> la - 1" by simp
    have "(2::nat) ^ 53 * b \<le> 2 ^ 53 * 2 ^ lb" using bb by simp
    also have "\<dots> = 2 ^ (lb + 53)" by (simp only: power_add mult.commute)
    also have "\<dots> \<le> 2 ^ (la - 1)" using le by (intro power_increasing) simp_all
    finally show ?thesis using ba by simp
  qed
qed

lemma binary64_le:
  assumes "a \<le> N * b" "0 < b" "N < 2 ^ 53" "binary64 a b = (m, d)"
  shows "m \<le> N * d \<and> 0 < d"
proof (cases "a = 0")
  case True
  with assms show ?thesis by (simp add: binary64_def)
next
  case False
  show ?thesis
  proof (cases "ilog2 a b \<le> 52")
    case True
    have "a * 2 ^ nat (52 - ilog2 a b) \<le> (N * 2 ^ nat (52 - ilog2 a b)) * b"
      using assms(1) by (simp add: mult_ac)
    then have "rne_div (a * 2 ^ nat (52 - ilog2 a b)) b \<le> N * 2 ^ nat (52 - ilog2 a b)"
      using assms(2) by (rule rne_div_le)
    with True False assms(4) show ?thesis by (auto simp: binary64_def Let_def)
  next
    case False
    then have "2 ^ 53 * b \<le> a" using ilog2_large [of a b] \<open>a \<noteq> 0\<close> assms(2) by simp
    moreover have "N * b < 2 ^ 53 * b" using assms(2,3) by simp
    ultimately have False using assms(1) by linarith
    then show ?thesis ..
  qed
qed

lemma round_ratio_times_bounds:
  assumes "k \<le> n" "0 < n" "c < 2 ^ 53"
  shows "0 \<le> round_ratio_times k n c \<and> round_ratio_times k n c \<le> int c"
proof -
  obtain m d where md: "binary64 k n = (m, d)" by (cases "binary64 k n")
  obtain m' d' where md': "binary64 (m * c) d = (m', d')" by (cases "binary64 (m * c) d")
  have 1: "m \<le> 1 * d \<and> 0 < d"
    using assms(1,2) md by (intro binary64_le [of k 1 n]) simp_all
  then have "m * c \<le> c * d" by (simp add: mult.commute)
  with 1 assms(3) md' have 2: "m' \<le> c * d' \<and> 0 < d'"
    by (intro binary64_le [of "m * c" c d]) simp_all
  then have "rne_div m' d' \<le> c" by (intro rne_div_le) simp_all
  with md md' show ?thesis by (simp add: round_ratio_times_def)
qed

section \<open>Evaluation on concrete inputs\<close>

text \<open>Concrete inputs are evaluated by rewriting with the definitions.\<close>

lemmas float_eval = round_ratio_times_def binary64_def ilog2_def rne_div_def compute_floorlog Let_def

lemmas path_eval = score_def os_path_split_def rstrip_sep_def lstrip_sep_def count_sep_def
  IsPortableFilename_def portable_char_def isalpha_def chunk_bonus_def test_path_def

lemma rrt_1_1_10: "round_ratio_times (Suc 0) (Suc 0) 10 = 10"
  by (simp add: float_eval)

lemma rrt_6_7_10: "round_ratio_times 6 7 10 = 9"
  by (simp add: float_eval)

text \<open>The float model follows the doubles where they leave the exact quotient: in Python
  \<^verbatim>\<open>(115 / 200) * 100\<close> is \<^verbatim>\<open>57.49999999999999\<close> and rounds to 57, and
  \<^verbatim>\<open>(109 / 200) * 100\<close> is \<^verbatim>\<open>54.50000000000001\<close> and rounds to 55.\<close>

lemma rrt_float_artefacts:
  "round_ratio_times 115 200 100 = 57" "round_ratio_times 109 200 100 = 55"
  "round_ratio_times 1 8 100 = 12" "round_ratio_times 1 4 10 = 2" "round_ratio_times 3 4 10 = 8"
  by (simp_all add: float_eval)

section \<open>Properties of the string functions\<close>

lemma count_sep_append: "count_sep (a @ b) = count_sep a + count_sep b"
  by (simp add: count_sep_def)

lemma count_sep_concat_replicate: "count_sep (concat (replicate n s)) = n * count_sep s"
  by (induction n) (simp_all add: count_sep_append, simp add: count_sep_def)

lemma os_path_split_tail:
  assumes "CHR ''/'' \<notin> set f"
  shows "snd (os_path_split (p @ CHR ''/'' # f)) = f"
proof -
  have "takeWhile (\<lambda>c. c \<noteq> CHR ''/'') (rev f @ CHR ''/'' # rev p) = rev f"
    using assms by (subst takeWhile_append2) auto
  then show ?thesis by (simp add: os_path_split_def Let_def)
qed

lemma count_sep_deep_x: "count_sep deep_x = 1002"
  unfolding deep_x_def count_sep_append count_sep_concat_replicate by (simp add: count_sep_def)

lemma tail_deep_x: "snd (os_path_split deep_x) = ''f''"
  unfolding deep_x_def by (rule os_path_split_tail) simp

lemma deep_x_neq: "s \<noteq> deep_x" if "count_sep s \<noteq> 1002"
  using that count_sep_deep_x by auto

section \<open>Properties of the score\<close>

lemma sum_list_map_if_filter:
  "sum_list (map (\<lambda>c. if P c then (g c :: int) else 0) xs) = sum_list (map g (filter P xs))"
  by (induction xs) simp_all

lemma chunk_bonus_matching:
  "chunk_bonus favs p =
     sum_list (map (\<lambda>c. round_ratio_times (c + 1) (length (split_sep (lstrip_sep p))) 100)
                   (matching_chunks favs p))"
  by (simp add: chunk_bonus_def matching_chunks_def Let_def sum_list_map_if_filter)

lemma matching_chunks_bound: "c \<in> set (matching_chunks favs p) \<Longrightarrow> c < length (split_sep (lstrip_sep p))"
  by (simp add: matching_chunks_def Let_def)

lemma chunk_bonus_nonneg: "0 \<le> chunk_bonus favs p"
  unfolding chunk_bonus_matching
  by (rule sum_list_nonneg) (auto simp: round_ratio_times_def split: prod.splits)

lemma chunk_bonus_le_100:
  assumes "length (matching_chunks favs p) \<le> 1"
  shows "chunk_bonus favs p \<le> 100"
proof (cases "matching_chunks favs p")
  case Nil
  then show ?thesis by (simp add: chunk_bonus_matching)
next
  case (Cons c cs)
  with assms have cs: "cs = []" by simp
  have "c \<in> set (matching_chunks favs p)" using Cons by simp
  then have lt: "c < length (split_sep (lstrip_sep p))" by (rule matching_chunks_bound)
  then have "c + 1 \<le> length (split_sep (lstrip_sep p))" by simp
  moreover have "0 < length (split_sep (lstrip_sep p))" using lt by (rule le_less_trans [OF le0])
  ultimately have "round_ratio_times (c + 1) (length (split_sep (lstrip_sep p))) 100 \<le> int 100"
    by (intro conjunct2 [OF round_ratio_times_bounds]) simp_all
  with Cons cs show ?thesis by (simp add: chunk_bonus_matching)
qed

lemma score_refines_spec_score:
  assumes "snd (os_path_split fp) \<noteq> []"
    and "IsPortableFilename fp = spec_portable (snd (os_path_split fp))"
    and "length (matching_chunks favs (fst (os_path_split fp))) \<le> 1"
  shows "score favs fp cat = Inr (spec_score favs fp cat)"
proof -
  have "chunk_bonus favs (fst (os_path_split fp)) =
      (case matching_chunks favs (fst (os_path_split fp)) of [] \<Rightarrow> 0
       | c # _ \<Rightarrow> round_ratio_times (c + 1) (length (split_sep (lstrip_sep (fst (os_path_split fp))))) 100)"
    using assms(3) by (cases "matching_chunks favs (fst (os_path_split fp))") (simp_all add: chunk_bonus_matching)
  with assms(1,2) show ?thesis
    by (simp add: score_def spec_score_def spec_favoredBonus_def Let_def case_prod_beta)
qed

lemma score_lower:
  assumes "snd (os_path_split x) \<noteq> []" "x \<in> set favs"
  shows "\<exists>v. score favs x c = Inr v \<and> 1015 - int (count_sep x) \<le> v"
proof -
  have "0 \<le> round_ratio_times (length (filter isalpha (snd (os_path_split x)))) (length (snd (os_path_split x))) 10"
    by (auto simp: round_ratio_times_def split: prod.splits)
  with assms show ?thesis by (simp add: score_def case_prod_beta)
qed

lemma score_upper:
  assumes "snd (os_path_split y) \<noteq> []" "y \<notin> set favs"
    "length (matching_chunks favs (fst (os_path_split y))) \<le> 1"
  shows "\<exists>v. score favs y c = Inr v \<and> v \<le> 134 - int (count_sep y)"
proof -
  let ?f = "snd (os_path_split y)"
  have "round_ratio_times (length (filter isalpha ?f)) (length ?f) 10 \<le> int 10"
    using round_ratio_times_bounds [of "length (filter isalpha ?f)" "length ?f" 10] assms(1) by simp
  moreover have "chunk_bonus favs (fst (os_path_split y)) \<le> 100"
    using assms(3) by (rule chunk_bonus_le_100)
  ultimately show ?thesis using assms(1,2) by (simp add: score_def case_prod_beta)
qed


section \<open>Properties of the keep decision\<close>

lemma highest_unchanged:
  "\<forall>v\<in>set vs. v \<le> hs \<Longrightarrow> highest vs i (hs, hi) = (hs, hi)"
  by (induction vs arbitrary: i) auto

lemma highest_first_max:
  assumes "\<exists>v\<in>set vs. hs < v"
  shows "\<exists>j<length vs. snd (highest vs i (hs, hi)) = i + j
           \<and> (\<forall>k<length vs. vs ! k \<le> vs ! j) \<and> (\<forall>k<j. vs ! k < vs ! j) \<and> hs < vs ! j"
  using assms
proof (induction vs arbitrary: i hs hi)
  case Nil
  then show ?case by simp
next
  case (Cons v vs)
  show ?case
  proof (cases "hs < v")
    case True
    show ?thesis
    proof (cases "\<exists>w\<in>set vs. v < w")
      case True
      from Cons.IH [OF True, of "i + 1" i] obtain j where j: "j < length vs"
        "snd (highest vs (i + 1) (v, i)) = i + 1 + j"
        "\<forall>k<length vs. vs ! k \<le> vs ! j" "\<forall>k<j. vs ! k < vs ! j" "v < vs ! j" by blast
      have "\<forall>k<length (v # vs). (v # vs) ! k \<le> (v # vs) ! Suc j"
        using j(3,5) by (auto simp: nth_Cons split: nat.splits)
      moreover have "\<forall>k<Suc j. (v # vs) ! k < (v # vs) ! Suc j"
        using j(4,5) by (auto simp: nth_Cons split: nat.splits)
      moreover have "hs < (v # vs) ! Suc j" using j(5) \<open>hs < v\<close> by simp
      ultimately show ?thesis using j(1,2) \<open>hs < v\<close>
        by (intro exI [of _ "Suc j"]) simp
    next
      case False
      then have all: "\<forall>w\<in>set vs. w \<le> v" by auto
      then have "highest vs (i + 1) (v, i) = (v, i)" by (rule highest_unchanged)
      moreover have "\<forall>k<length (v # vs). (v # vs) ! k \<le> v"
        using all by (auto simp: nth_Cons split: nat.splits)
      ultimately show ?thesis using \<open>hs < v\<close> by (intro exI [of _ 0]) simp
    qed
  next
    case False
    with Cons.prems have ex: "\<exists>w\<in>set vs. hs < w" by auto
    from Cons.IH [OF ex, of "i + 1" hi] obtain j where j: "j < length vs"
      "snd (highest vs (i + 1) (hs, hi)) = i + 1 + j"
      "\<forall>k<length vs. vs ! k \<le> vs ! j" "\<forall>k<j. vs ! k < vs ! j" "hs < vs ! j" by blast
    have v: "v < vs ! j" using False j(5) by simp
    have "\<forall>k<length (v # vs). (v # vs) ! k \<le> (v # vs) ! Suc j"
      using j(3) v by (auto simp: nth_Cons split: nat.splits)
    moreover have "\<forall>k<Suc j. (v # vs) ! k < (v # vs) ! Suc j"
      using j(4) v by (auto simp: nth_Cons split: nat.splits)
    ultimately show ?thesis using j(1,2,5) False
      by (intro exI [of _ "Suc j"]) simp
  qed
qed


lemma scores_length: "scores favs dupes = Inr vs \<Longrightarrow> length vs = length dupes"
  by (induction dupes arbitrary: vs) (auto split: sum.splits)

lemma highest_index_nonpositive: "\<forall>v\<in>set vs. v \<le> 0 \<Longrightarrow> highest_index vs = 0"
  by (simp add: highest_index_def highest_unchanged)

lemma highest_index_positive:
  assumes "\<exists>v\<in>set vs. 0 < v"
  shows "highest_index vs < length vs
         \<and> (\<forall>k<length vs. vs ! k \<le> vs ! highest_index vs)
         \<and> (\<forall>k<highest_index vs. vs ! k < vs ! highest_index vs)"
  using highest_first_max [OF assms, of 0 0] by (auto simp: highest_index_def)

lemma flag_items_length: "length vs = length ds \<Longrightarrow> length (flag_items hi i2 ds vs) = length ds"
  by (induction hi i2 ds vs rule: flag_items.induct) simp_all

lemma flag_items_nth:
  "length vs = length ds \<Longrightarrow> i < length ds \<Longrightarrow>
     flag_items hi i2 ds vs ! i = (ds ! i)\<lparr>d_s := Some (vs ! i), d_r := Some (i2 + i \<noteq> hi)\<rparr>"
proof (induction hi i2 ds vs arbitrary: i rule: flag_items.induct)
  case (1 hi i2 d ds v vs)
  then show ?case by (cases i) simp_all
qed simp_all

lemma analyze_group_nth:
  assumes "scores favs dupes = Inr vs" "i < length dupes"
  shows "\<exists>g. analyze_group favs dupes = Inr g \<and> length g = length dupes
             \<and> g ! i = (dupes ! i)\<lparr>d_s := Some (vs ! i), d_r := Some (i \<noteq> highest_index vs)\<rparr>"
  using assms scores_length [OF assms(1)]
  by (simp add: analyze_group_def flag_items_length flag_items_nth)

text \<open>So the item kept is the first with the highest score whenever some score is positive,
  and the first of the group otherwise, whatever the scores.\<close>

section \<open>The claims about scoring\<close>

text \<open>
  \<^bold>\<open>C1\<close> (the kept item is the one with the strictly highest score, the first of them on a
  tie). The search for the highest score starts from \<^verbatim>\<open>highest_score = 0\<close>, so a group whose
  scores are all negative keeps its first item even when a later one scores higher: for the
  two items \<open>deep_a\<close> (score \<open>-2\<close>) and \<open>deep_b\<close> (score \<open>-1\<close>) \<^verbatim>\<open>AnalyzeDupes\<close> keeps
  \<open>deep_a\<close> and flags \<open>deep_b\<close> for removal.
\<close>

theorem C1_keep_ignores_negative_scores:
  "analyze_group [] [deep_a, deep_b] =
     Inr [deep_a\<lparr>d_s := Some (- 2), d_r := Some False\<rparr>,
          deep_b\<lparr>d_s := Some (- 1), d_r := Some True\<rparr>]"
proof -
  have a: "score [] (d_fp deep_a) (d_cat deep_a) = Inr (- 2)"
    by (simp add: deep_a_def path_eval float_eval)
  have b: "score [] (d_fp deep_b) (d_cat deep_b) = Inr (- 1)"
    by (simp add: deep_b_def path_eval float_eval)
  show ?thesis by (simp add: analyze_group_def a b highest_index_def)
qed

text \<open>
  \<^bold>\<open>C2\<close> (the score is the sum of the depth term, the catalog bonus, the letter ratio, the
  portable-filename bonus and the favored bonus). \<^verbatim>\<open>IsPortableFilename\<close> tests the first
  character of the filename only: \<^verbatim>\<open>/a/x y.txt\<close>, whose filename contains a space, still gets
  the 4 points, and scores 24 where the formula of the claim gives 20.
\<close>

theorem C2_portable_bonus_checks_first_character_only:
  "score [] ''/a/x y.txt'' False = Inr 24 \<and> spec_score [] ''/a/x y.txt'' False = 20"
proof
  show "score [] ''/a/x y.txt'' False = Inr 24" by (simp add: path_eval float_eval)
  show "spec_score [] ''/a/x y.txt'' False = 20"
    by (simp add: spec_score_def spec_favoredBonus_def spec_portable_def matching_chunks_def path_eval float_eval)
qed

text \<open>
  \<^bold>\<open>C4\<close>, as amended (an exact rule for X makes X score above a sibling Y without one). Once
  the full path of \<open>x\<close> has been appended to the favored paths, \<open>x\<close> scores strictly above
  every \<open>y\<close> that is not itself a favored path, provided the path of \<open>x\<close> has at most 880
  separators more than the path of \<open>y\<close> and at most one directory prefix of \<open>y\<close> is favored.
  Both files have a non-empty filename, so that both scores exist.
\<close>

theorem C4_exact_rule_dominates_within_depth:
  assumes "snd (os_path_split x) \<noteq> []" "snd (os_path_split y) \<noteq> []"
    and "y \<notin> set (favs @ [x])"
    and "length (matching_chunks (favs @ [x]) (fst (os_path_split y))) \<le> 1"
    and "count_sep x \<le> count_sep y + 880"
  shows "\<exists>vx vy. score (favs @ [x]) x cx = Inr vx \<and> score (favs @ [x]) y cy = Inr vy \<and> vy < vx"
proof -
  obtain vx where vx: "score (favs @ [x]) x cx = Inr vx" "1015 - int (count_sep x) \<le> vx"
    using score_lower [of x "favs @ [x]" cx] assms(1) by auto
  obtain vy where vy: "score (favs @ [x]) y cy = Inr vy" "vy \<le> 134 - int (count_sep y)"
    using score_upper [of y "favs @ [x]" cy] assms(2,3,4) by auto
  from vx(2) vy(2) assms(5) have "vy < vx" by linarith
  with vx(1) vy(1) show ?thesis by blast
qed

text \<open>The amended claim at \<^verbatim>\<open>/a/foo.txt\<close> (favored) and \<^verbatim>\<open>/b/foo.txt\<close> (from the catalog).\<close>

theorem C4_exact_rule_dominates_within_depth_witness:
  "snd (os_path_split ''/a/foo.txt'') \<noteq> [] \<and> snd (os_path_split ''/b/foo.txt'') \<noteq> []
   \<and> ''/b/foo.txt'' \<notin> set ([] @ [''/a/foo.txt''])
   \<and> length (matching_chunks ([] @ [''/a/foo.txt'']) (fst (os_path_split ''/b/foo.txt''))) \<le> 1
   \<and> count_sep ''/a/foo.txt'' \<le> count_sep ''/b/foo.txt'' + 880
   \<and> (\<exists>vx vy. score ([] @ [''/a/foo.txt'']) ''/a/foo.txt'' False = Inr vx
         \<and> score ([] @ [''/a/foo.txt'']) ''/b/foo.txt'' True = Inr vy \<and> vy < vx)"
proof -
  have h1: "snd (os_path_split ''/a/foo.txt'') \<noteq> []" by (simp add: os_path_split_def)
  have h2: "snd (os_path_split ''/b/foo.txt'') \<noteq> []" by (simp add: os_path_split_def)
  have h3: "''/b/foo.txt'' \<notin> set ([] @ [''/a/foo.txt''])" by simp
  have h4: "length (matching_chunks ([] @ [''/a/foo.txt'']) (fst (os_path_split ''/b/foo.txt''))) \<le> 1"
    by (simp add: matching_chunks_def os_path_split_def rstrip_sep_def lstrip_sep_def test_path_def)
  have h5: "count_sep ''/a/foo.txt'' \<le> count_sep ''/b/foo.txt'' + 880" by (simp add: count_sep_def)
  from h1 h2 h3 h4 h5 C4_exact_rule_dominates_within_depth [OF h1 h2 h3 h4 h5, of False True]
  show ?thesis by blast
qed

text \<open>The claim as stated fails: with the only rule the exact path of \<open>deep_x\<close>, the favored
  \<open>deep_x\<close> scores 27 and its sibling \<^verbatim>\<open>/f\<close>, which has no rule, scores 28.\<close>

theorem C4_exact_rule_deep_path_counterexample:
  "score ([] @ [deep_x]) deep_x False = Inr 27
   \<and> score ([] @ [deep_x]) ''/f'' False = Inr 28
   \<and> deep_x \<in> set ([] @ [deep_x]) \<and> ''/f'' \<notin> set ([] @ [deep_x])"
proof -
  have p: "IsPortableFilename deep_x"
    by (simp add: IsPortableFilename_def tail_deep_x portable_char_def Let_def)
  have a: "isalpha CHR ''f''" by (simp add: isalpha_def Let_def)
  have x: "score [deep_x] deep_x False = Inr 27"
    by (simp add: score_def case_prod_beta tail_deep_x count_sep_deep_x p a rrt_1_1_10)
  have n1: "''/f'' \<noteq> deep_x" by (rule deep_x_neq) (simp add: count_sep_def)
  have n2: "''/'' \<noteq> deep_x" by (rule deep_x_neq) (simp add: count_sep_def)
  have s: "os_path_split ''/f'' = (''/'', ''f'')" by (simp add: os_path_split_def)
  have c: "chunk_bonus [deep_x] ''/'' = 0"
    using n2 by (simp add: chunk_bonus_def lstrip_sep_def test_path_def)
  have q: "IsPortableFilename ''/f''"
    by (simp add: IsPortableFilename_def s portable_char_def Let_def)
  have y: "score [deep_x] ''/f'' False = Inr 28"
    using n1 by (simp add: score_def s c q a rrt_1_1_10 count_sep_def)
  from x y n1 show ?thesis by simp
qed


section \<open>Properties of the traversals\<close>

lemma run_loop_invariant:
  assumes "\<And>x st. x \<in> set xs \<Longrightarrow> P st \<Longrightarrow> P (fst (body x st))" and "P st"
  shows "P (fst (run_loop body xs st))"
  using assms
proof (induction xs arbitrary: st)
  case Nil
  then show ?case by simp
next
  case (Cons x xs)
  obtain st' r where b: "body x st = (st', r)" by (cases "body x st")
  have p: "P st'" using Cons.prems(1) [of x st] Cons.prems(2) b by simp
  show ?case
  proof (cases r)
    case None
    have "P (fst (run_loop body xs st'))"
      using Cons.prems(1) p by (intro Cons.IH) simp_all
    with b None show ?thesis by simp
  next
    case (Some e)
    with b p show ?thesis by simp
  qed
qed

lemma cataloged_unchanged_hit:
  assumes "catalog_index catalog fp = Some h" "map_of catalog h = Some entry"
  shows "cataloged_unchanged catalog fp (e_s entry) = Inr True"
  using assms by (simp add: cataloged_unchanged_def)

lemma scan_file_untouched:
  assumes "catalog_index catalog fp = Some h" "map_of catalog h = Some entry"
    "os_getsize os fp = Inr (e_s entry)" "untouched fp n st"
  shows "untouched fp n (fst (scan_file os H catalog rf st))"
proof (cases rf)
  case (Pair root' fname)
  show ?thesis
  proof (cases "os_path_join root' fname = fp")
    case True
    with assms Pair show ?thesis
      by (simp add: scan_file_def cataloged_unchanged_hit)
  next
    case False
    with assms(4) Pair show ?thesis
      by (auto simp: scan_file_def untouched_def item_path_def Let_def
          split: sum.splits bool.splits option.splits)
  qed
qed

lemma reconcile_file_untouched:
  assumes "catalog_index catalog fp = Some h" "map_of catalog h = Some entry"
    "os_getsize os fp = Inr (e_s entry)" "untouched fp n st"
  shows "untouched fp n (fst (reconcile_file os H catalog rf st))"
proof (cases rf)
  case (Pair root' fname)
  show ?thesis
  proof (cases "os_path_join root' fname = fp")
    case True
    with assms Pair show ?thesis
      by (simp add: reconcile_file_def cataloged_unchanged_hit)
  next
    case False
    with assms(4) Pair show ?thesis
      by (auto simp: reconcile_file_def untouched_def item_path_def Let_def entry_eq_item_def
          split: sum.splits bool.splits option.splits)
  qed
qed

lemma classify_file_untouched:
  assumes "catalog_index catalog fp = Some h" "map_of catalog h = Some entry"
    "os_getsize os fp = Inr (e_s entry)" "untouched fp n st"
  shows "untouched fp n (fst (classify_file os H catalog rf st))"
proof (cases rf)
  case (Pair root' fname)
  show ?thesis
  proof (cases "os_path_join root' fname = fp")
    case True
    with assms Pair show ?thesis
      by (simp add: classify_file_def cataloged_unchanged_hit)
  next
    case False
    with assms(4) Pair show ?thesis
      by (auto simp: classify_file_def untouched_def item_path_def Let_def
          split: sum.splits bool.splits option.splits)
  qed
qed


text \<open>The traversal of \<^verbatim>\<open>catalog_files.py\<close> never records a path twice.\<close>

lemma scan_file_distinct:
  assumes "distinct (map item_path (sc_new_data st))"
  shows "distinct (map item_path (sc_new_data (fst (scan_file os H catalog rf st))))"
proof (cases rf)
  case (Pair root' fname)
  with assms show ?thesis
    by (auto simp: scan_file_def item_path_def Let_def filter_empty_conv
        split: sum.splits bool.splits option.splits)
qed

lemma catalog_files_scan_distinct:
  assumes "distinct (map item_path wip)"
  shows "distinct (map item_path (sc_new_data (fst (catalog_files_scan os H catalog wip))))"
  unfolding catalog_files_scan_def
proof (rule run_loop_invariant [where P = "\<lambda>st. distinct (map item_path (sc_new_data st))"])
  show "distinct (map item_path (sc_new_data \<lparr>sc_new_data = wip, sc_renamed = [], sc_hashed = []\<rparr>))"
    using assms by simp
qed (rule scan_file_distinct)


section \<open>Properties of the reconciliation\<close>

lemma FindHash_empty_iff:
  assumes "\<forall>i\<in>set cl. i_h i \<noteq> []"
  shows "FindHashByFileAndSize os cl file path sz = []
         \<longleftrightarrow> length (same_size cl sz) \<noteq> 1 \<and> length (gone os (same_size cl sz)) \<noteq> 1"
proof -
  have in_cl: "i \<in> set (same_size cl sz) \<Longrightarrow> i_h i \<noteq> []" for i
    using assms by (simp add: same_size_def)
  have in_gone: "i \<in> set (gone os (same_size cl sz)) \<Longrightarrow> i_h i \<noteq> []" for i
    using in_cl by (simp add: gone_def)
  show ?thesis
  proof (cases "same_size cl sz")
    case Nil
    then show ?thesis by (simp add: FindHashByFileAndSize_def gone_def)
  next
    case (Cons a as)
    note outer = this
    show ?thesis
    proof (cases as)
      case Nil
      with outer in_cl [of a] show ?thesis by (simp add: FindHashByFileAndSize_def)
    next
      case (Cons b bs)
      show ?thesis
      proof (cases "gone os (same_size cl sz)")
        case Nil
        with outer Cons show ?thesis by (simp add: FindHashByFileAndSize_def)
      next
        case (Cons c cs)
        with outer \<open>as = b # bs\<close> in_gone [of c] show ?thesis
          by (cases cs) (simp_all add: FindHashByFileAndSize_def)
      qed
    qed
  qed
qed

lemma catalog_list_hashes: "i_h ` set (catalog_list catalog) = fst ` set catalog"
  by (force simp: catalog_list_def)

text \<open>The two narrowing steps in terms of the catalog: with distinct keys, the number of
  candidates a step leaves is the number of catalog entries of that size, and of those whose file
  is gone.\<close>

lemma same_size_catalog_list:
  "same_size (catalog_list catalog) sz =
     map (\<lambda>(hash, entry). \<lparr>i_h = hash, i_f = e_f entry, i_p = e_p entry, i_s = e_s entry\<rparr>)
         (filter (\<lambda>x. e_s (snd x) = sz) catalog)"
  by (simp add: same_size_def catalog_list_def filter_map o_def split_def)

lemma gone_catalog_list:
  "gone os (same_size (catalog_list catalog) sz) =
     map (\<lambda>(hash, entry). \<lparr>i_h = hash, i_f = e_f entry, i_p = e_p entry, i_s = e_s entry\<rparr>)
         (filter (\<lambda>x. e_s (snd x) = sz \<and> \<not> os_exists os (entry_path (snd x))) catalog)"
  by (simp add: gone_def same_size_catalog_list filter_map o_def split_def item_path_def entry_path_def
      conj_commute)

lemma length_filter_card:
  assumes "distinct xs"
  shows "length (filter P xs) = card {x \<in> set xs. P x}"
proof -
  have "distinct (filter P xs)" using assms by simp
  then have "card (set (filter P xs)) = length (filter P xs)" by (rule distinct_card)
  then show ?thesis by simp
qed

lemma catalog_distinct: "distinct (map fst catalog) \<Longrightarrow> distinct (catalog :: catalog)"
  by (simp add: distinct_map)

lemma same_size_count:
  assumes "distinct (map fst catalog)"
  shows "length (same_size (catalog_list catalog) sz) = card {x \<in> set catalog. e_s (snd x) = sz}"
  using length_filter_card [OF catalog_distinct [OF assms]] by (simp add: same_size_catalog_list)

lemma gone_count:
  assumes "distinct (map fst catalog)"
  shows "length (gone os (same_size (catalog_list catalog) sz))
       = card {x \<in> set catalog. e_s (snd x) = sz \<and> \<not> os_exists os (entry_path (snd x))}"
  using length_filter_card [OF catalog_distinct [OF assms]] by (simp add: gone_catalog_list)

lemma distinct_singleton_list:
  assumes "distinct xs" and "set xs = {a}"
  shows "xs = [a]"
proof (cases xs)
  case Nil
  with assms show ?thesis by simp
next
  case (Cons y ys)
  with assms have "y = a" by auto
  moreover have "ys = []"
  proof (cases ys)
    case Nil then show ?thesis .
  next
    case (Cons z zs)
    with \<open>xs = y # ys\<close> assms have "z = a" "z \<noteq> y" by auto
    with \<open>y = a\<close> show ?thesis by simp
  qed
  ultimately show ?thesis using Cons by simp
qed

lemma FindHash_missing:
  assumes keys: "distinct (map fst catalog)"
    and two: "{x \<in> set catalog. e_s (snd x) = sz} = {(ha, ea), (hb, eb)}" and ne: "ha \<noteq> hb"
    and missing: "\<not> os_exists os (entry_path ea)" and there: "os_exists os (entry_path eb)"
  shows "FindHashByFileAndSize os (catalog_list catalog) fname root' sz = ha"
proof -
  have "length (same_size (catalog_list catalog) sz) = card {(ha, ea), (hb, eb)}"
    using same_size_count [OF keys, of sz] two by simp
  also have "\<dots> = 2" using ne by simp
  finally have l2: "length (same_size (catalog_list catalog) sz) = 2" .
  have "{x \<in> set catalog. e_s (snd x) = sz \<and> \<not> os_exists os (entry_path (snd x))}
        = {x \<in> {x \<in> set catalog. e_s (snd x) = sz}. \<not> os_exists os (entry_path (snd x))}" by blast
  also have "\<dots> = {(ha, ea)}" unfolding two using missing there by auto
  finally have s: "set (filter (\<lambda>x. e_s (snd x) = sz \<and> \<not> os_exists os (entry_path (snd x))) catalog) = {(ha, ea)}"
    by simp
  have "distinct (filter (\<lambda>x. e_s (snd x) = sz \<and> \<not> os_exists os (entry_path (snd x))) catalog)"
    using catalog_distinct [OF keys] by simp
  from distinct_singleton_list [OF this s]
  have g: "gone os (same_size (catalog_list catalog) sz) = [\<lparr>i_h = ha, i_f = e_f ea, i_p = e_p ea, i_s = e_s ea\<rparr>]"
    by (simp add: gone_catalog_list)
  from l2 obtain a b where "same_size (catalog_list catalog) sz = [a, b]"
    by (metis (no_types) One_nat_def Suc_1 length_0_conv length_Suc_conv)
  with g show ?thesis by (simp add: FindHashByFileAndSize_def)
qed


section \<open>Properties of rescoring and of the removal list\<close>

lemma scores_keys: "keys_of g' = keys_of g \<Longrightarrow> scores favs g' = scores favs g"
proof (induction g arbitrary: g')
  case Nil
  then show ?case by (simp add: keys_of_def)
next
  case (Cons d ds)
  then obtain d' ds' where g': "g' = d' # ds'" by (cases g') (auto simp: keys_of_def)
  with Cons.prems have k: "d_fp d' = d_fp d" "d_cat d' = d_cat d" "keys_of ds' = keys_of ds"
    by (simp_all add: keys_of_def)
  have "scores favs ds' = scores favs ds" using k(3) by (rule Cons.IH)
  with g' k(1,2) show ?case by (simp only: scores.simps)
qed

lemma dupe_update_eq:
  "d_fp d' = d_fp d \<Longrightarrow> d_cat d' = d_cat d \<Longrightarrow>
     d'\<lparr>d_s := x, d_r := y\<rparr> = (d\<lparr>d_s := x, d_r := y\<rparr> :: dupe)"
  by (cases d, cases d') simp

lemma flag_items_keys:
  "keys_of g' = keys_of g \<Longrightarrow> flag_items hi i2 g' vs = flag_items hi i2 g vs"
proof (induction g arbitrary: g' vs i2)
  case Nil
  then show ?case by (simp add: keys_of_def)
next
  case (Cons d ds)
  then obtain d' ds' where g': "g' = d' # ds'" by (cases g') (auto simp: keys_of_def)
  with Cons.prems have k: "d_fp d' = d_fp d" "d_cat d' = d_cat d" "keys_of ds' = keys_of ds"
    by (simp_all add: keys_of_def)
  show ?case
  proof (cases vs)
    case Nil
    with g' show ?thesis by simp
  next
    case (Cons v vs')
    have "flag_items hi (i2 + 1) ds' vs' = flag_items hi (i2 + 1) ds vs'"
      using k(3) by (rule Cons.IH)
    with g' Cons dupe_update_eq [OF k(1,2)] show ?thesis by simp
  qed
qed

lemma flag_items_result_keys:
  "length vs = length g \<Longrightarrow> keys_of (flag_items hi i2 g vs) = keys_of g"
  by (induction hi i2 g vs rule: flag_items.induct) (simp_all add: keys_of_def)

lemma analyze_group_keys:
  assumes "keys_of g' = keys_of g"
  shows "analyze_group favs g' = analyze_group favs g"
  by (simp add: analyze_group_def scores_keys [OF assms] flag_items_keys [OF assms] cong: sum.case_cong)

lemma analyze_group_result_keys:
  assumes "analyze_group favs g = Inr g'"
  shows "keys_of g' = keys_of g"
proof -
  obtain vs where vs: "scores favs g = Inr vs"
    using assms by (cases "scores favs g") (simp_all add: analyze_group_def)
  then have "length vs = length g" by (rule scores_length)
  then have "keys_of (flag_items (highest_index vs) 0 g vs) = keys_of g"
    by (rule flag_items_result_keys)
  with assms vs show ?thesis by (simp add: analyze_group_def)
qed

lemma AnalyzeDupes_keys:
  "map keys_of ds' = map keys_of ds \<Longrightarrow> AnalyzeDupes favs ds' = AnalyzeDupes favs ds"
proof (induction ds arbitrary: ds')
  case Nil
  then show ?case by simp
next
  case (Cons g gs)
  then obtain g' gs' where "ds' = g' # gs'" by (cases ds') auto
  with Cons.prems have k: "keys_of g' = keys_of g" "map keys_of gs' = map keys_of gs" by simp_all
  have "AnalyzeDupes favs gs' = AnalyzeDupes favs gs" using k(2) by (rule Cons.IH)
  with \<open>ds' = g' # gs'\<close> analyze_group_keys [OF k(1)] show ?case by (simp only: AnalyzeDupes.simps)
qed

lemma AnalyzeDupes_result_keys:
  "AnalyzeDupes favs ds = Inr ds' \<Longrightarrow> map keys_of ds' = map keys_of ds"
proof (induction ds arbitrary: ds')
  case Nil
  then show ?case by simp
next
  case (Cons g gs)
  then show ?case
    by (auto split: sum.splits simp: analyze_group_result_keys)
qed

lemma AnalyzeDupes_again:
  assumes "AnalyzeDupes favs ds0 = Inr ds"
  shows "AnalyzeDupes favs' ds = AnalyzeDupes favs' ds0"
  by (rule AnalyzeDupes_keys) (rule AnalyzeDupes_result_keys [OF assms])

lemma handle_key_rescored:
  assumes "AnalyzeDupes favs ds0 = Inr ds" "handle_key favs ds key = Continue favs' ds'"
  shows "AnalyzeDupes favs' ds0 = Inr ds'"
proof (cases "CountDupeIndexes ds = 0 \<or> key = Move")
  case True
  with assms show ?thesis by (auto simp: handle_key_def split: command.splits)
next
  case False
  note again = AnalyzeDupes_again [OF assms(1)]
  show ?thesis
  proof (cases key)
    case (Favor path)
    with assms(2) False again [of "if path \<noteq> [] then favs @ [path] else favs"] show ?thesis
      by (simp add: handle_key_def Let_def split: sum.splits)
  next
    case (Unfavor path)
    show ?thesis
    proof (cases "if path \<noteq> ''(none)'' then list_remove path favs else Inr favs")
      case (Inl e)
      with assms(2) False Unfavor show ?thesis by (simp add: handle_key_def)
    next
      case (Inr f)
      with assms(2) False Unfavor again [of f] show ?thesis
        by (simp add: handle_key_def split: sum.splits)
    qed
  next
    case Done
    with assms(2) False show ?thesis by (simp add: handle_key_def)
  next
    case Quit
    with assms(2) show ?thesis by (simp add: handle_key_def)
  next
    case Move
    with False show ?thesis by simp
  qed
qed

lemma review_loop_rescored:
  assumes "AnalyzeDupes favs ds0 = Inr ds" "review_loop favs ds keys = Inr (favs', ds')"
  shows "AnalyzeDupes favs' ds0 = Inr ds'"
  using assms
proof (induction keys arbitrary: favs ds)
  case Nil
  then show ?case by simp
next
  case (Cons key keys)
  show ?case
  proof (cases "handle_key favs ds key")
    case (Continue f d)
    have "AnalyzeDupes f ds0 = Inr d" using Cons.prems(1) Continue by (rule handle_key_rescored)
    moreover from Cons.prems(2) Continue have "review_loop f d keys = Inr (favs', ds')" by simp
    ultimately show ?thesis by (rule Cons.IH)
  next
    case Break
    with Cons.prems show ?thesis by simp
  next
    case (Abort e)
    with Cons.prems show ?thesis by simp
  qed
qed

lemma remove_flagged_result:
  "remove_flagged tbr ds = Inr r \<Longrightarrow> r = tbr @ map d_fp (filter (\<lambda>d. d_r d = Some True) ds)"
proof (induction ds arbitrary: tbr)
  case Nil
  then show ?case by simp
next
  case (Cons d ds)
  then obtain b where b: "d_r d = Some b" by (cases "d_r d") simp_all
  with Cons.prems have "remove_flagged (if b then tbr @ [d_fp d] else tbr) ds = Inr r" by simp
  then have "r = (if b then tbr @ [d_fp d] else tbr) @ map d_fp (filter (\<lambda>d. d_r d = Some True) ds)"
    by (rule Cons.IH)
  with b show ?case by simp
qed

lemma resolve_result:
  assumes "resolve exists catalog flag new_data keys = Inr tbr"
  shows "\<exists>favs ds.
           AnalyzeDupes favs (g_duplicates (identify_duplicates exists catalog flag new_data)) = Inr ds
           \<and> tbr = g_to_be_removed (identify_duplicates exists catalog flag new_data)
                   @ map d_fp (filter (\<lambda>d. d_r d = Some True) (concat ds))"
proof (cases "g_duplicates (identify_duplicates exists catalog flag new_data) = []")
  case True
  with assms show ?thesis by (simp add: resolve_def)
next
  case False
  let ?g = "identify_duplicates exists catalog flag new_data"
  from assms False obtain ds where ds: "AnalyzeDupes [] (g_duplicates ?g) = Inr ds"
    by (cases "AnalyzeDupes [] (g_duplicates ?g)") (simp_all add: resolve_def)
  with assms False obtain favs ds' where r: "review_loop [] ds keys = Inr (favs, ds')"
    and t: "RemoveDupes (g_to_be_removed ?g) ds' = Inr tbr"
    by (cases "review_loop [] ds keys") (auto simp: resolve_def)
  have "AnalyzeDupes favs (g_duplicates ?g) = Inr ds'" using ds r by (rule review_loop_rescored)
  moreover have "tbr = g_to_be_removed ?g @ map d_fp (filter (\<lambda>d. d_r d = Some True) (concat ds'))"
    using t by (simp add: RemoveDupes_def remove_flagged_result)
  ultimately show ?thesis by blast
qed


section \<open>Evaluation of the example of the specification\<close>

lemma chop_hello: "chop 65536 ''hello'' = [''hello'']"
  by (simp add: chop.simps)

lemma hash_hello:
  "hash_file hello_os H ''/a/foo.txt'' = Inr (hello_hash H)"
  "hash_file hello_os H ''/b/foo.txt'' = Inr (hello_hash H)"
  by (simp_all add: hash_file_def hello_os_def chop_hello hello_hash_def)

lemma ignored_foo: "\<not> ignored ''foo.txt''"
  by (simp add: ignored_def endswith_def)

lemma join_foo: "os_path_join ''/a'' ''foo.txt'' = ''/a/foo.txt''" "os_path_join ''/b'' ''foo.txt'' = ''/b/foo.txt''"
  by (simp_all add: os_path_join_def)

lemma scan_hello:
  "catalog_files_scan hello_os H [] [] =
     (\<lparr>sc_new_data = [hello_a H, hello_b H], sc_renamed = [],
       sc_hashed = [''/a/foo.txt'', ''/b/foo.txt'']\<rparr>, None)"
proof -
  have w: "walk_files (os_walk hello_os) = [(''/a'', ''foo.txt''), (''/b'', ''foo.txt'')]"
    by (simp add: walk_files_def hello_os_def)
  have g: "os_getsize hello_os ''/a/foo.txt'' = Inr 5" "os_getsize hello_os ''/b/foo.txt'' = Inr 5"
    by (simp_all add: hello_os_def)
  have c: "cataloged_unchanged [] p n = Inr False" for p n
    by (simp add: cataloged_unchanged_def catalog_index_def)
  show ?thesis
    by (simp add: catalog_files_scan_def w scan_file_def ignored_foo join_foo g c hash_hello
        item_path_def hello_a_def hello_b_def Let_def)
qed

lemma group_hello:
  "identify_duplicates (os_exists hello_os) [] flag [hello_a H, hello_b H] =
     \<lparr>g_dupes = [''/a/foo.txt'', ''/b/foo.txt''], g_to_be_removed = [],
      g_duplicates = [[\<lparr>d_fp = ''/a/foo.txt'', d_cat = False, d_s = None, d_r = None\<rparr>,
                       \<lparr>d_fp = ''/b/foo.txt'', d_cat = False, d_s = None, d_r = None\<rparr>]]\<rparr>"
  by (simp add: identify_duplicates_def group_file_def matching_records_def item_path_def
      hello_a_def hello_b_def join_foo Let_def)

lemma score_foo:
  "score [] ''/a/foo.txt'' False = Inr 26" "score [] ''/b/foo.txt'' False = Inr 26"
  by (simp_all add: path_eval float_eval)

lemma analyze_hello:
  "AnalyzeDupes [] [[\<lparr>d_fp = ''/a/foo.txt'', d_cat = False, d_s = None, d_r = None\<rparr>,
                       \<lparr>d_fp = ''/b/foo.txt'', d_cat = False, d_s = None, d_r = None\<rparr>]]
   = Inr [[\<lparr>d_fp = ''/a/foo.txt'', d_cat = False, d_s = Some 26, d_r = Some False\<rparr>,
           \<lparr>d_fp = ''/b/foo.txt'', d_cat = False, d_s = Some 26, d_r = Some True\<rparr>]]"
  by (simp add: analyze_group_def score_foo highest_index_def upt_rec)

lemma resolve_hello:
  "resolve (os_exists hello_os) [] flag [hello_a H, hello_b H] [Done] = Inr [''/b/foo.txt'']"
  by (simp add: resolve_def group_hello analyze_hello handle_key_def CountDupeIndexes_def RemoveDupes_def
      del: AnalyzeDupes.simps)


section \<open>Properties of the groups\<close>

lemma fold_invariant:
  assumes "\<And>x s. x \<in> set xs \<Longrightarrow> P s \<Longrightarrow> P (f x s)" and "P s"
  shows "P (fold f xs s)"
  using assms by (induction xs arbitrary: s) simp_all

lemma matching_records_member:
  assumes "x \<in> set new_data" "item_path x \<notin> set dupes"
  shows "matching_records new_data (i_h x) dupes \<noteq> []"
  using assms by (auto simp: matching_records_def filter_empty_conv)

lemma matching_records_scan: "d \<in> set (matching_records new_data h dupes) \<Longrightarrow> \<not> d_cat d"
  by (auto simp: matching_records_def)

lemma matching_records_paths:
  "d_fp ` set (matching_records new_data h dupes) \<subseteq> item_path ` set new_data"
  by (auto simp: matching_records_def)

lemma group_file_ok:
  assumes "x \<in> set new_data" "\<forall>g\<in>set (g_duplicates st). group_ok flag g"
  shows "\<forall>g\<in>set (g_duplicates (group_file exists catalog flag new_data x st)). group_ok flag g"
proof (cases "item_path x \<in> set (g_dupes st)")
  case True
  with assms(2) show ?thesis by (simp add: group_file_def Let_def)
next
  case False
  let ?m = "matching_records new_data (i_h x) (g_dupes st)"
  have ne: "?m \<noteq> []" using assms(1) False by (rule matching_records_member)
  have sc: "filter d_cat ?m = []" "filter (\<lambda>d. \<not> d_cat d) ?m = ?m"
    by (auto simp: filter_empty_conv filter_id_conv matching_records_scan)
  have l: "1 \<le> length ?m" using ne by (cases ?m) simp_all
  show ?thesis
  proof (cases "map_of catalog (i_h x)")
    case None
    with assms(2) False sc l show ?thesis
      by (auto simp: group_file_def Let_def group_ok_def)
  next
    case (Some o')
    with assms(2) False sc l show ?thesis
      by (auto simp: group_file_def Let_def group_ok_def)
  qed
qed

lemma identify_duplicates_ok:
  "\<forall>g\<in>set (g_duplicates (identify_duplicates exists catalog flag new_data)). group_ok flag g"
  unfolding identify_duplicates_def
proof (rule fold_invariant [where P = "\<lambda>st. \<forall>g\<in>set (g_duplicates st). group_ok flag g"])
  show "\<forall>g\<in>set (g_duplicates \<lparr>g_dupes = [], g_to_be_removed = [], g_duplicates = []\<rparr>). group_ok flag g"
    by simp
qed (rule group_file_ok)


section \<open>The paths of the removal list\<close>

lemma group_file_paths:
  assumes "x \<in> set new_data" "paths_known catalog new_data st"
  shows "paths_known catalog new_data (group_file exists catalog flag new_data x st)"
proof -
  have m: "\<forall>d\<in>set (matching_records new_data (i_h x) (g_dupes st)). d_fp d \<in> known_paths catalog new_data"
    using matching_records_paths [of new_data "i_h x" "g_dupes st"] by (auto simp: known_paths_def)
  have x: "item_path x \<in> known_paths catalog new_data"
    using assms(1) by (simp add: known_paths_def)
  have c: "map_of catalog (i_h x) = Some o' \<Longrightarrow> entry_path o' \<in> known_paths catalog new_data" for o'
    by (force simp: known_paths_def dest: map_of_SomeD)
  show ?thesis
  proof (cases "map_of catalog (i_h x)")
    case None
    with assms(2) m x show ?thesis
      by (auto simp: group_file_def Let_def paths_known_def)
  next
    case (Some o')
    with assms(2) m x c [OF Some] show ?thesis
      by (auto simp: group_file_def Let_def paths_known_def)
  qed
qed

lemma identify_duplicates_paths:
  "paths_known catalog new_data (identify_duplicates exists catalog flag new_data)"
  unfolding identify_duplicates_def
proof (rule fold_invariant [where P = "paths_known catalog new_data"])
  show "paths_known catalog new_data \<lparr>g_dupes = [], g_to_be_removed = [], g_duplicates = []\<rparr>"
    by (simp add: paths_known_def)
qed (rule group_file_paths)

lemma keys_of_paths: "map keys_of ds' = map keys_of ds \<Longrightarrow> d_fp ` set (concat ds') = d_fp ` set (concat ds)"
proof -
  assume a: "map keys_of ds' = map keys_of ds"
  have "map d_fp (concat ds) = map fst (concat (map keys_of ds))" for ds
    by (induction ds) (simp_all add: keys_of_def comp_def)
  then have "map d_fp (concat ds') = map d_fp (concat ds)" using a by simp
  then show ?thesis by (metis set_map)
qed

lemma resolve_paths:
  assumes "resolve exists catalog flag new_data keys = Inr tbr"
  shows "set tbr \<subseteq> known_paths catalog new_data"
proof -
  let ?g = "identify_duplicates exists catalog flag new_data"
  from resolve_result [OF assms] obtain favs ds where
    a: "AnalyzeDupes favs (g_duplicates ?g) = Inr ds"
    and t: "tbr = g_to_be_removed ?g @ map d_fp (filter (\<lambda>d. d_r d = Some True) (concat ds))"
    by blast
  have "d_fp ` set (concat ds) = d_fp ` set (concat (g_duplicates ?g))"
    using AnalyzeDupes_result_keys [OF a] by (rule keys_of_paths)
  then have "set tbr \<subseteq> set (g_to_be_removed ?g) \<union> d_fp ` set (concat (g_duplicates ?g))"
    using t by auto
  with identify_duplicates_paths [of catalog new_data exists flag] show ?thesis
    by (auto simp: paths_known_def)
qed


section \<open>Properties of the deletion step\<close>

lemma remove_existing_fs:
  "p \<notin> set tbr \<Longrightarrow> w_fs (remove_existing tbr w) p = w_fs w p"
  by (induction tbr arbitrary: w) (simp_all add: say_def path_exists_def)

lemma deletion_step_fs:
  assumes "deletion_step tbr w = Inr w'" "p \<notin> set tbr"
  shows "w_fs w' p = w_fs w p"
  using assms
  by (auto simp: deletion_step_def input_choice_def say_def remove_existing_fs
      split: if_splits sum.splits list.splits)

lemma db_paths_differ: "catalog_path db \<noteq> wip_db_path db"
  by (simp add: catalog_path_def wip_db_path_def os_path_join_def)


section \<open>Further properties of the removal list and of the commit\<close>

lemma commit_entries_keeps:
  "map_of catalog h = Some e \<Longrightarrow> map_of (fst (commit_entries entries (catalog, out))) h = Some e"
  by (induction entries arbitrary: catalog out) (auto simp: map_of_append)








lemma remove_existing_stdin: "w_stdin (remove_existing tbr w) = w_stdin w"
  by (induction tbr arbitrary: w) (simp_all add: say_def)







section \<open>The claims about grouping, removal and commit\<close>

text \<open>
  \<^bold>\<open>C3\<close> (every group has at least two items, for both settings of the flag). The guard of
  the grouping loop discards a record when \<^verbatim>\<open>len(matching) < 2 and not catalog_item\<close>, and
  \<^verbatim>\<open>catalog_item\<close> is filled even when \<^verbatim>\<open>remove_catalog_dupes\<close> is false and it is not added to the
  group: with the flag off, one scan record whose hash is in the catalog forms a group of
  one item. (With the flag on every group has two items, lemma \<open>identify_duplicates_ok\<close>.)
\<close>

theorem C3_single_item_group_when_catalog_dupes_ignored:
  "identify_duplicates (\<lambda>p. p = ''/x/a.txt'' \<or> p = ''/y/b.txt'') catalog_one False [record_b]
   = \<lparr>g_dupes = [''/y/b.txt''], g_to_be_removed = [],
      g_duplicates = [[\<lparr>d_fp = ''/y/b.txt'', d_cat = False, d_s = None, d_r = None\<rparr>]]\<rparr>"
  by (simp add: identify_duplicates_def group_file_def matching_records_def item_path_def entry_path_def
      catalog_one_def record_b_def os_path_join_def Let_def)

text \<open>
  \<^bold>\<open>C5\<close>, as amended (the example of the specification). Scanning \<^verbatim>\<open>/a/foo.txt\<close> and
  \<^verbatim>\<open>/b/foo.txt\<close> with an empty catalog and no work in progress hashes both files and yields
  two records with one hash; they form one group of two items; with no favored path each
  item scores 26, that is \<open>(15 - 2) + 0 + 9 + 4 + 0\<close>; the first is kept, and after the
  review the removal list is \<^verbatim>\<open>/b/foo.txt\<close>. This holds for every hasher and both settings of
  the flag.
\<close>

theorem C5_example_scenario:
  "catalog_files_scan hello_os H [] [] =
     (\<lparr>sc_new_data = [hello_a H, hello_b H], sc_renamed = [],
       sc_hashed = [''/a/foo.txt'', ''/b/foo.txt'']\<rparr>, None)
   \<and> i_h (hello_a H) = i_h (hello_b H)
   \<and> g_duplicates (identify_duplicates (os_exists hello_os) [] flag [hello_a H, hello_b H]) =
       [[\<lparr>d_fp = ''/a/foo.txt'', d_cat = False, d_s = None, d_r = None\<rparr>,
         \<lparr>d_fp = ''/b/foo.txt'', d_cat = False, d_s = None, d_r = None\<rparr>]]
   \<and> AnalyzeDupes [] (g_duplicates (identify_duplicates (os_exists hello_os) [] flag [hello_a H, hello_b H])) =
       Inr [[\<lparr>d_fp = ''/a/foo.txt'', d_cat = False, d_s = Some 26, d_r = Some False\<rparr>,
             \<lparr>d_fp = ''/b/foo.txt'', d_cat = False, d_s = Some 26, d_r = Some True\<rparr>]]
   \<and> resolve (os_exists hello_os) [] flag [hello_a H, hello_b H] [Done] = Inr [''/b/foo.txt'']"
proof (intro conjI)
  show "i_h (hello_a H) = i_h (hello_b H)" by (simp add: hello_a_def hello_b_def)
qed (simp_all add: scan_hello group_hello analyze_hello resolve_hello del: AnalyzeDupes.simps)

text \<open>The claim as stated gives both files the score 28; the score is 26: the full path
  \<^verbatim>\<open>/a/foo.txt\<close> has two separators, and six letters of seven characters round to 9.\<close>

theorem C5_example_score_counterexample:
  "score [] ''/a/foo.txt'' False = Inr 26 \<and> score [] ''/b/foo.txt'' False = Inr 26
   \<and> score [] ''/a/foo.txt'' False \<noteq> Inr 28"
  by (simp add: score_foo)




text \<open>
  \<^bold>\<open>C8\<close> (a record is inserted when its path is not excluded and its hash is new, an
  existing entry is never overwritten, and the reported count is the number inserted). The
  first two parts hold (lemma \<open>commit_entries_keeps\<close>); the count printed is
  \<^verbatim>\<open>len(new_cat_entries)\<close>, which includes the records whose hash was already a key: committing
  the one record \<^verbatim>\<open>/y/b.txt\<close>, whose hash \<^verbatim>\<open>h1\<close> is in the catalog, leaves the catalog as it
  was and prints that one file was added.
\<close>

theorem C8_added_count_includes_skipped:
  "commit_step ''/db'' catalog_one [record_b] [''/x/a.txt'']
     \<lparr>w_fs = [wip_db_path ''/db'' \<mapsto> WipJson [record_b]], w_stdin = [''y''], w_stdout = []\<rparr>
   = Inr (catalog_one,
          \<lparr>w_fs = [catalog_path ''/db'' \<mapsto> CatalogJson catalog_one], w_stdin = [],
            w_stdout = [AskAdd 1, AlreadyInCatalog ''h1'' ''b.txt'', Added 1]\<rparr>)"
  by (simp add: commit_step_def new_cat_entries_def item_path_def record_b_def catalog_one_def
      input_choice_def say_def os_remove_def wip_db_path_def catalog_path_def os_path_join_def Let_def
      fun_upd_twist path_exists_def)


section \<open>The claims about the traversals\<close>

text \<open>
  \<^bold>\<open>C7\<close> (an unchanged cataloged file is neither hashed nor recorded). When the full path
  \<open>fp\<close> is in \<^verbatim>\<open>catalog_index\<close> and its size on disk is the size of the entry it points to,
  then in each of the three scripts, whether the traversal ends or is aborted by an
  exception, \<^verbatim>\<open>hash_file\<close> has not been called with \<open>fp\<close>, and no record for \<open>fp\<close> has been
  added to \<^verbatim>\<open>new_data\<close> (beyond the work in progress loaded at the start) or to
  \<^verbatim>\<open>renamed\<close>.
\<close>

theorem C7_unchanged_cataloged_file_is_skipped:
  assumes "catalog_index catalog fp = Some h" and "map_of catalog h = Some entry"
    and "os_getsize os fp = Inr (e_s entry)"
  shows "fp \<notin> set (sc_hashed (fst (catalog_files_scan os H catalog wip)))
       \<and> fp \<notin> item_path ` set (drop (length wip) (sc_new_data (fst (catalog_files_scan os H catalog wip))))
       \<and> fp \<notin> set (sc_hashed (fst (update_locations_scan os H catalog)))
       \<and> fp \<notin> item_path ` set (sc_new_data (fst (update_locations_scan os H catalog)))
       \<and> fp \<notin> set (sc_hashed (fst (find_noncatalog_scan os H catalog)))
       \<and> fp \<notin> item_path ` set (sc_new_data (fst (find_noncatalog_scan os H catalog)))
       \<and> fp \<notin> item_path ` set (sc_renamed (fst (find_noncatalog_scan os H catalog)))"
proof -
  have "untouched fp (length wip) (fst (catalog_files_scan os H catalog wip))"
    unfolding catalog_files_scan_def
  proof (rule run_loop_invariant [where P = "untouched fp (length wip)"])
    show "untouched fp (length wip) \<lparr>sc_new_data = wip, sc_renamed = [], sc_hashed = []\<rparr>"
      by (simp add: untouched_def)
  qed (rule scan_file_untouched [OF assms])
  moreover have "untouched fp 0 (fst (update_locations_scan os H catalog))"
    unfolding update_locations_scan_def
  proof (rule run_loop_invariant [where P = "untouched fp 0"])
    show "untouched fp 0 \<lparr>sc_new_data = [], sc_renamed = [], sc_hashed = []\<rparr>"
      by (simp add: untouched_def)
  qed (rule reconcile_file_untouched [OF assms])
  moreover have "untouched fp 0 (fst (find_noncatalog_scan os H catalog))"
    unfolding find_noncatalog_scan_def
  proof (rule run_loop_invariant [where P = "untouched fp 0"])
    show "untouched fp 0 \<lparr>sc_new_data = [], sc_renamed = [], sc_hashed = []\<rparr>"
      by (simp add: untouched_def)
  qed (rule classify_file_untouched [OF assms])
  ultimately show ?thesis by (simp add: untouched_def)
qed

text \<open>The claim on the catalog entry \<^verbatim>\<open>/x/a.txt\<close>, which is on disk with its recorded size.\<close>

theorem C7_unchanged_cataloged_file_is_skipped_witness:
  "catalog_index catalog_one ''/x/a.txt'' = Some ''h1''
   \<and> map_of catalog_one ''h1'' = Some \<lparr>e_f = ''a.txt'', e_p = ''/x'', e_s = 5\<rparr>
   \<and> os_getsize cataloged_os ''/x/a.txt'' = Inr (e_s \<lparr>e_f = ''a.txt'', e_p = ''/x'', e_s = 5\<rparr>)
   \<and> ''/x/a.txt'' \<notin> set (sc_hashed (fst (catalog_files_scan cataloged_os plain_hasher catalog_one [])))
   \<and> ''/x/a.txt'' \<notin> item_path ` set (drop (length ([] :: item list))
         (sc_new_data (fst (catalog_files_scan cataloged_os plain_hasher catalog_one []))))
   \<and> ''/x/a.txt'' \<notin> set (sc_hashed (fst (update_locations_scan cataloged_os plain_hasher catalog_one)))
   \<and> ''/x/a.txt'' \<notin> item_path ` set (sc_new_data (fst (update_locations_scan cataloged_os plain_hasher catalog_one)))
   \<and> ''/x/a.txt'' \<notin> set (sc_hashed (fst (find_noncatalog_scan cataloged_os plain_hasher catalog_one)))
   \<and> ''/x/a.txt'' \<notin> item_path ` set (sc_new_data (fst (find_noncatalog_scan cataloged_os plain_hasher catalog_one)))
   \<and> ''/x/a.txt'' \<notin> item_path ` set (sc_renamed (fst (find_noncatalog_scan cataloged_os plain_hasher catalog_one)))"
proof -
  have h1: "catalog_index catalog_one ''/x/a.txt'' = Some ''h1''"
    by (simp add: catalog_index_def catalog_one_def entry_path_def os_path_join_def)
  have h2: "map_of catalog_one ''h1'' = Some \<lparr>e_f = ''a.txt'', e_p = ''/x'', e_s = 5\<rparr>"
    by (simp add: catalog_one_def)
  have h3: "os_getsize cataloged_os ''/x/a.txt'' = Inr (e_s \<lparr>e_f = ''a.txt'', e_p = ''/x'', e_s = 5\<rparr>)"
    by (simp add: cataloged_os_def)
  from h1 h2 h3 C7_unchanged_cataloged_file_is_skipped [OF h1 h2 h3, of plain_hasher "[]"] show ?thesis by blast
qed

text \<open>
  \<^bold>\<open>C9\<close> (reconciliation by size). Take a catalog, a dict, so with distinct keys, none of
  them the empty string (they are digests), and a file that is not ignored and not skipped as
  unchanged. When the catalog entries with the size of the file are exactly the two entries
  \<open>(ha, ea)\<close> and \<open>(hb, eb)\<close>, in whichever order the catalog has them, and the file of \<open>ea\<close> is
  not on disk while the file of \<open>eb\<close> is, the record added for the file carries the hash \<open>ha\<close>
  and \<^verbatim>\<open>hash_file\<close> is not called. And \<^verbatim>\<open>hash_file\<close> is called for the file exactly when the
  number of catalog entries of its size is not one and the number of those of them whose file is
  not on disk is not one.
\<close>

theorem C9_reconcile_adopts_hash_of_missing_entry:
  assumes keys: "distinct (map fst catalog)" and hashes: "[] \<notin> fst ` set catalog"
    and "\<not> ignored fname" and "os_getsize os (os_path_join root' fname) = Inr sz"
    and "cataloged_unchanged catalog (os_path_join root' fname) sz = Inr False"
  shows "({x \<in> set catalog. e_s (snd x) = sz} = {(ha, ea), (hb, eb)} \<and> ha \<noteq> hb
          \<and> \<not> os_exists os (entry_path ea) \<and> os_exists os (entry_path eb) \<longrightarrow>
           reconcile_file os H catalog (root', fname) st =
             (st\<lparr>sc_new_data := sc_new_data st @ [\<lparr>i_h = ha, i_f = fname, i_p = root', i_s = sz\<rparr>]\<rparr>, None))
       \<and> (sc_hashed (fst (reconcile_file os H catalog (root', fname) st)) \<noteq> sc_hashed st \<longleftrightarrow>
           card {x \<in> set catalog. e_s (snd x) = sz} \<noteq> 1
           \<and> card {x \<in> set catalog. e_s (snd x) = sz \<and> \<not> os_exists os (entry_path (snd x))} \<noteq> 1)"
proof -
  note live = assms(3,4,5)
  have nonempty: "\<forall>i\<in>set (catalog_list catalog). i_h i \<noteq> []"
    using hashes catalog_list_hashes [of catalog] by (metis imageI)
  have "reconcile_file os H catalog (root', fname) st =
             (st\<lparr>sc_new_data := sc_new_data st @ [\<lparr>i_h = ha, i_f = fname, i_p = root', i_s = sz\<rparr>]\<rparr>, None)"
    if a: "{x \<in> set catalog. e_s (snd x) = sz} = {(ha, ea), (hb, eb)} \<and> ha \<noteq> hb
          \<and> \<not> os_exists os (entry_path ea) \<and> os_exists os (entry_path eb)"
  proof -
    from a have f: "FindHashByFileAndSize os (catalog_list catalog) fname root' sz = ha"
      using FindHash_missing [OF keys] by blast
    from a have "(ha, ea) \<in> set catalog" by blast
    then have "ha \<in> fst ` set catalog" by force
    with hashes have "ha \<noteq> []" by metis
    with f live show ?thesis
      by (simp add: reconcile_file_def entry_eq_item_def Let_def split: option.splits)
  qed
  moreover have "sc_hashed (fst (reconcile_file os H catalog (root', fname) st)) \<noteq> sc_hashed st \<longleftrightarrow>
           card {x \<in> set catalog. e_s (snd x) = sz} \<noteq> 1
           \<and> card {x \<in> set catalog. e_s (snd x) = sz \<and> \<not> os_exists os (entry_path (snd x))} \<noteq> 1"
  proof -
    have "sc_hashed (fst (reconcile_file os H catalog (root', fname) st)) \<noteq> sc_hashed st
          \<longleftrightarrow> FindHashByFileAndSize os (catalog_list catalog) fname root' sz = []"
      using live by (simp add: reconcile_file_def Let_def entry_eq_item_def split: option.splits sum.splits)
    also have "\<dots> \<longleftrightarrow> length (same_size (catalog_list catalog) sz) \<noteq> 1
           \<and> length (gone os (same_size (catalog_list catalog) sz)) \<noteq> 1"
      by (rule FindHash_empty_iff [OF nonempty])
    finally show ?thesis by (simp only: same_size_count [OF keys] gone_count [OF keys])
  qed
  ultimately show ?thesis by blast
qed

text \<open>The claim on \<open>catalog_three\<close>: the new file \<^verbatim>\<open>/y/b.txt\<close> takes the hash of \<^verbatim>\<open>/x/c.txt\<close>, the
  later of the two entries of size 5 and the one that is gone, although the entry \<^verbatim>\<open>/x/z.txt\<close> of
  another size is gone as well; nothing is hashed.\<close>

theorem C9_reconcile_adopts_hash_of_missing_entry_witness:
  "distinct (map fst catalog_three) \<and> [] \<notin> fst ` set catalog_three \<and> \<not> ignored ''b.txt''
   \<and> os_getsize moved_os (os_path_join ''/y'' ''b.txt'') = Inr 5
   \<and> cataloged_unchanged catalog_three (os_path_join ''/y'' ''b.txt'') 5 = Inr False
   \<and> {x \<in> set catalog_three. e_s (snd x) = 5}
       = {(''h2'', \<lparr>e_f = ''c.txt'', e_p = ''/x'', e_s = 5\<rparr>), (''h1'', \<lparr>e_f = ''a.txt'', e_p = ''/x'', e_s = 5\<rparr>)}
   \<and> os_exists moved_os ''/x/a.txt'' \<and> os_exists moved_os ''/x/c.txt'' = False
   \<and> os_exists moved_os ''/x/z.txt'' = False
   \<and> reconcile_file moved_os plain_hasher catalog_three (''/y'', ''b.txt'') empty_scan =
        (empty_scan\<lparr>sc_new_data := [\<lparr>i_h = ''h2'', i_f = ''b.txt'', i_p = ''/y'', i_s = 5\<rparr>]\<rparr>, None)
   \<and> sc_hashed (fst (reconcile_file moved_os plain_hasher catalog_three (''/y'', ''b.txt'') empty_scan)) = []"
proof -
  have h0: "distinct (map fst catalog_three)" by (simp add: catalog_three_def)
  have h1: "[] \<notin> fst ` set catalog_three" by (simp add: catalog_three_def)
  have h2: "\<not> ignored ''b.txt''" by (simp add: ignored_def endswith_def)
  have h3: "os_getsize moved_os (os_path_join ''/y'' ''b.txt'') = Inr 5"
    by (simp add: moved_os_def os_path_join_def)
  have h4: "cataloged_unchanged catalog_three (os_path_join ''/y'' ''b.txt'') 5 = Inr False"
    by (simp add: cataloged_unchanged_def catalog_index_def catalog_three_def entry_path_def os_path_join_def)
  have two: "{x \<in> set catalog_three. e_s (snd x) = 5}
       = {(''h2'', \<lparr>e_f = ''c.txt'', e_p = ''/x'', e_s = 5\<rparr>), (''h1'', \<lparr>e_f = ''a.txt'', e_p = ''/x'', e_s = 5\<rparr>)}"
    by (auto simp: catalog_three_def)
  have e: "os_exists moved_os ''/x/a.txt''" "os_exists moved_os ''/x/c.txt'' = False"
    "os_exists moved_os ''/x/z.txt'' = False"
    by (simp_all add: moved_os_def)
  have p: "entry_path \<lparr>e_f = ''c.txt'', e_p = ''/x'', e_s = 5\<rparr> = ''/x/c.txt''"
    "entry_path \<lparr>e_f = ''a.txt'', e_p = ''/x'', e_s = 5\<rparr> = ''/x/a.txt''"
    by (simp_all add: entry_path_def os_path_join_def)
  note t = C9_reconcile_adopts_hash_of_missing_entry [OF h0 h1 h2 h3 h4, where ha = "''h2''" and ea = "\<lparr>e_f = ''c.txt'', e_p = ''/x'', e_s = 5\<rparr>"
      and hb = "''h1''" and eb = "\<lparr>e_f = ''a.txt'', e_p = ''/x'', e_s = 5\<rparr>"
      and H = plain_hasher and st = empty_scan]
  from t two e p have r: "reconcile_file moved_os plain_hasher catalog_three (''/y'', ''b.txt'') empty_scan =
        (empty_scan\<lparr>sc_new_data := sc_new_data empty_scan @ [\<lparr>i_h = ''h2'', i_f = ''b.txt'', i_p = ''/y'', i_s = 5\<rparr>]\<rparr>, None)"
    by simp
  then have r': "reconcile_file moved_os plain_hasher catalog_three (''/y'', ''b.txt'') empty_scan =
        (empty_scan\<lparr>sc_new_data := [\<lparr>i_h = ''h2'', i_f = ''b.txt'', i_p = ''/y'', i_s = 5\<rparr>]\<rparr>, None)"
    by (simp add: empty_scan_def)
  then have "sc_hashed (fst (reconcile_file moved_os plain_hasher catalog_three (''/y'', ''b.txt'') empty_scan)) = []"
    by (simp add: empty_scan_def)
  with h0 h1 h2 h3 h4 two e r' show ?thesis by blast
qed

text \<open>
  \<^bold>\<open>C10\<close> (a run with nothing to commit deletes the work in progress). Take the script
  from the write of \<^verbatim>\<open>wip.db\<close> that follows the traversal, and suppose that the review ends
  with the removal list \<open>tbr\<close>, that the deletion step ends in the state \<open>w2\<close>, and that no
  record is left to commit. Then \<^verbatim>\<open>wip.db\<close> is there before the commit step, holding
  \<^verbatim>\<open>new_data\<close>, and the run ends normally with \<^verbatim>\<open>wip.db\<close> removed, the catalog document
  untouched, no line read from the user and nothing printed but the final message. The path of
  \<^verbatim>\<open>wip.db\<close> is not the path of a scan record or of a catalog entry (the traversal ignores
  \<^verbatim>\<open>.db\<close> files), so the deletion step cannot have removed it.
\<close>

theorem C10_empty_commit_deletes_wip:
  assumes "resolve (path_exists (save_wip db new_data w)) catalog flag new_data keys = Inr tbr"
    and "deletion_step tbr (save_wip db new_data w) = Inr w2"
    and "new_cat_entries new_data tbr = []"
    and "wip_db_path db \<notin> known_paths catalog new_data"
  shows "w_fs w2 (wip_db_path db) = Some (WipJson new_data)
       \<and> (\<exists>w3. after_scan db catalog flag new_data keys w = Inr (catalog, w3)
              \<and> w_fs w3 (wip_db_path db) = None
              \<and> w_fs w3 (catalog_path db) = w_fs w2 (catalog_path db)
              \<and> w_stdin w3 = w_stdin w2
              \<and> w_stdout w3 = w_stdout w2 @ [NoNewFiles])"
proof -
  have "wip_db_path db \<notin> set tbr" using resolve_paths [OF assms(1)] assms(4) by blast
  then have "w_fs w2 (wip_db_path db) = w_fs (save_wip db new_data w) (wip_db_path db)"
    using assms(2) by (intro deletion_step_fs)
  then have wip: "w_fs w2 (wip_db_path db) = Some (WipJson new_data)" by (simp add: save_wip_def)
  then have "commit_step db catalog new_data tbr w2 =
      Inr (catalog, (say [NoNewFiles] w2)\<lparr>w_fs := (w_fs w2)(wip_db_path db := None)\<rparr>)"
    using assms(3) by (simp add: commit_step_def os_remove_def say_def path_exists_def)
  with assms(1,2) wip db_paths_differ [of db] show ?thesis
    by (simp add: after_scan_def say_def)
qed

text \<open>The claim on the run of \<open>orphan_world\<close>: the only scan record goes to the removal
  list, the user confirms the deletion, and nothing is left to commit.\<close>

theorem C10_empty_commit_deletes_wip_witness:
  "resolve (path_exists (save_wip ''/db'' [record_b] orphan_world)) catalog_one True [record_b] []
     = Inr [''/y/b.txt'']
   \<and> deletion_step [''/y/b.txt''] (save_wip ''/db'' [record_b] orphan_world) = Inr orphan_world_deleted
   \<and> new_cat_entries [record_b] [''/y/b.txt''] = []
   \<and> wip_db_path ''/db'' \<notin> known_paths catalog_one [record_b]
   \<and> w_fs orphan_world_deleted (wip_db_path ''/db'') = Some (WipJson [record_b])
   \<and> (\<exists>w3. after_scan ''/db'' catalog_one True [record_b] [] orphan_world = Inr (catalog_one, w3)
          \<and> w_fs w3 (wip_db_path ''/db'') = None
          \<and> w_fs w3 (catalog_path ''/db'') = w_fs orphan_world_deleted (catalog_path ''/db'')
          \<and> w_stdin w3 = w_stdin orphan_world_deleted
          \<and> w_stdout w3 = w_stdout orphan_world_deleted @ [NoNewFiles])"
proof -
  have wp: "wip_db_path ''/db'' = ''/db/wip.db''" by (simp add: wip_db_path_def os_path_join_def)
  have g: "identify_duplicates (path_exists (save_wip ''/db'' [record_b] orphan_world))
             catalog_one True [record_b]
      = \<lparr>g_dupes = [], g_to_be_removed = [''/y/b.txt''], g_duplicates = []\<rparr>"
    by (simp add: identify_duplicates_def group_file_def matching_records_def item_path_def entry_path_def
      catalog_one_def record_b_def os_path_join_def Let_def save_wip_def orphan_world_def wp path_exists_def)
  have h1: "resolve (path_exists (save_wip ''/db'' [record_b] orphan_world)) catalog_one True [record_b] []
     = Inr [''/y/b.txt'']"
    by (simp add: resolve_def g)
  have h2: "deletion_step [''/y/b.txt''] (save_wip ''/db'' [record_b] orphan_world) = Inr orphan_world_deleted"
    by (simp add: deletion_step_def input_choice_def say_def save_wip_def orphan_world_def
        orphan_world_deleted_def wp fun_upd_twist path_exists_def)
  have h3: "new_cat_entries [record_b] [''/y/b.txt''] = []"
    by (simp add: new_cat_entries_def item_path_def record_b_def os_path_join_def)
  have h4: "wip_db_path ''/db'' \<notin> known_paths catalog_one [record_b]"
    by (simp add: known_paths_def wp item_path_def entry_path_def record_b_def catalog_one_def os_path_join_def)
  from h1 h2 h3 h4 C10_empty_commit_deletes_wip [OF h1 h2 h3 h4] show ?thesis by blast
qed


end
